theory Spec2Isabelle
  imports Main "HOL-Library.AList"
begin

section \<open>Data model of the CLAST causal-graph engine\<close>

text \<open>
  A Factor object is identified by its key in \<open>MODEL.factors\<close> (its identifier); a Link
  object by its pair of FROM and TO factors (\<open>addLink\<close> never creates a second Link for
  the same ordered pair). The JavaScript objects \<open>MODEL.factors\<close> and \<open>MODEL.links\<close> are
  modelled by the lists of their entries in \<open>for ... in\<close> order; the per-object fields
  \<open>inputs\<close>, \<open>outputs\<close>, \<open>predecessors\<close> of a Factor and \<open>visited\<close>, \<open>is_feedback\<close> of a
  Link are functions of the object.
\<close>

type_synonym factor = nat
type_synonym link = "factor \<times> factor"
type_synonym path = "factor list"
type_synonym pmatrix = "(factor \<times> path list) list"

definition from_factor :: "link \<Rightarrow> factor" where
  "from_factor l = fst l"

definition to_factor :: "link \<Rightarrow> factor" where
  "to_factor l = snd l"

text \<open>The fields that \<open>Factor.setPredecessors\<close> reads and writes.\<close>

record marks =
  visited :: "link \<Rightarrow> bool"
  predecessors :: "factor \<Rightarrow> factor list"

record model = marks +
  factors :: "factor list"
  links :: "link list"
  inputs :: "factor \<Rightarrow> link list"
  outputs :: "factor \<Rightarrow> link list"
  is_feedback :: "link \<Rightarrow> bool"
  path_matrix :: pmatrix
  cycle_list :: "path list"

datatype error = TypeError

section \<open>Array helpers\<close>

text \<open>\<open>Array.prototype.indexOf\<close>: the first index of the element, or \<open>-1\<close>.\<close>

fun indexOf :: "'a list \<Rightarrow> 'a \<Rightarrow> int" where
  "indexOf [] x = - 1"
| "indexOf (y # ys) x =
     (if y = x then 0 else (let r = indexOf ys x in if r < 0 then - 1 else r + 1))"

text \<open>\<open>i = a.indexOf(x); if(i >= 0) a.splice(i, 1)\<close>.\<close>

definition spliceOut :: "'a list \<Rightarrow> 'a \<Rightarrow> 'a list" where
  "spliceOut xs x =
     (let i = indexOf xs x in if i \<ge> 0 then take (nat i) xs @ drop (nat i + 1) xs else xs)"

text \<open>
  Modelled from the spec: the helper \<open>intersection\<close> called by \<open>buildPathMatrix\<close> is not
  among the source files. The spec says two candidates are the same cycle iff they have
  equal length and "their node sets intersect completely (every node in one appears in
  the other)"; the call site compares \<open>intersection(p, c).length\<close> with \<open>p.length\<close>, so
  \<open>intersection(p, c)\<close> is the list of the elements of \<open>p\<close> that occur in \<open>c\<close>.
\<close>

definition intersection :: "'a list \<Rightarrow> 'a list \<Rightarrow> 'a list" where
  "intersection p c = filter (\<lambda>x. x \<in> set c) p"

section \<open>Graph store\<close>

text \<open>
  \<open>addFactor\<close> returns the factor of that name when there is one; otherwise it makes a
  Factor with empty lists. \<open>addLink\<close> returns the link between the two factors when there
  is one; otherwise it makes a Link and appends it to the \<open>outputs\<close> of its FROM factor
  and to the \<open>inputs\<close> of its TO factor. Neither recomputes anything.
\<close>

definition addFactor :: "model \<Rightarrow> factor \<Rightarrow> model" where
  "addFactor m f =
     (if f \<in> set (factors m) then m
      else m\<lparr>predecessors := (predecessors m)(f := []),
             factors := factors m @ [f],
             inputs := (inputs m)(f := []),
             outputs := (outputs m)(f := [])\<rparr>)"

definition addLink :: "model \<Rightarrow> factor \<Rightarrow> factor \<Rightarrow> model" where
  "addLink m from_f to_f =
     (let l = (from_f, to_f) in
      if l \<in> set (links m) then m
      else m\<lparr>visited := (visited m)(l := False),
             links := links m @ [l],
             inputs := (inputs m)(to_f := inputs m to_f @ [l]),
             outputs := (outputs m)(from_f := outputs m from_f @ [l]),
             is_feedback := (is_feedback m)(l := False)\<rparr>)"

section \<open>Predecessor lists\<close>

text \<open>
  The inner loop of \<open>setPredecessors\<close>:
  \<open>for(j = 0; j < ff.predecessors.length; j++) { f = ff.predecessors[j];
  if(this.predecessors.indexOf(f) < 0) this.predecessors.push(f); }\<close>
\<close>

function addPredecessorsFrom :: "factor \<Rightarrow> factor \<Rightarrow> nat \<Rightarrow> marks \<Rightarrow> marks" where
  "addPredecessorsFrom this ff j s =
     (if j < length (predecessors s ff) then
        (let f = predecessors s ff ! j in
         addPredecessorsFrom this ff (j + 1)
           (if indexOf (predecessors s this) f < 0
            then s\<lparr>predecessors := (predecessors s)(this := predecessors s this @ [f])\<rparr>
            else s))
      else s)"
  by pat_completeness auto

text \<open>Facts about \<open>indexOf\<close> that the termination proof needs.\<close>

lemma indexOf_ge: "- 1 \<le> indexOf xs x"
  by (induction xs) (auto simp: Let_def)

lemma indexOf_neg_iff: "indexOf xs x < 0 \<longleftrightarrow> x \<notin> set xs"
proof (induction xs)
  case Nil
  show ?case by simp
next
  case (Cons y ys)
  have "- 1 \<le> indexOf ys x" by (rule indexOf_ge)
  with Cons show ?case by (auto simp: Let_def)
qed

lemma indexOf_nonneg_iff: "0 \<le> indexOf xs x \<longleftrightarrow> x \<in> set xs"
  using indexOf_neg_iff [of xs x] by linarith

termination addPredecessorsFrom
proof (relation "measure (\<lambda>(this, ff, j, s). length (predecessors s ff) - j)")
  show "wf (measure (\<lambda>(this, ff, j, s). length (predecessors s ff) - j))" by simp
next
  fix this ff :: factor and j :: nat and s :: marks and f
  assume j: "j < length (predecessors s ff)" and f: "f = predecessors s ff ! j"
  have "this = ff \<Longrightarrow> f \<in> set (predecessors s this)"
    using j f by simp
  then have "length (predecessors
       (if indexOf (predecessors s this) f < 0
        then s\<lparr>predecessors := (predecessors s)(this := predecessors s this @ [f])\<rparr>
        else s) ff) = length (predecessors s ff)"
    by (auto simp: indexOf_neg_iff)
  with j show "((this, ff, j + 1,
       if indexOf (predecessors s this) f < 0
       then s\<lparr>predecessors := (predecessors s)(this := predecessors s this @ [f])\<rparr>
       else s), this, ff, j, s)
      \<in> measure (\<lambda>(this, ff, j, s). length (predecessors s ff) - j)"
    by simp
qed

declare addPredecessorsFrom.simps [simp del]

text \<open>
  \<open>Factor.setPredecessors\<close>, with the index \<open>i\<close> of its \<open>for\<close> loop over \<open>this.inputs\<close>
  as an argument (\<open>setPredecessors\<close> itself starts at \<open>i = 0\<close>). The method reads the
  \<open>inputs\<close> lists, here \<open>ins\<close>, and reads and writes the \<open>visited\<close> marks and the
  \<open>predecessors\<close> lists, here the state \<open>s\<close>. The result \<open>None\<close> means that the call does
  not return.
\<close>

partial_function (option) setPredecessorsFrom ::
  "(factor \<Rightarrow> link list) \<Rightarrow> factor \<Rightarrow> nat \<Rightarrow> marks \<Rightarrow> marks option" where
  "setPredecessorsFrom ins this i s =
     (if i < length (ins this) then
        (let l = ins this ! i;
             v = visited s l;
             ff = from_factor l;
             s1 = s\<lparr>visited := (visited s)(l := True)\<rparr>;
             s2 = (if indexOf (predecessors s1 this) ff < 0
                   then s1\<lparr>predecessors := (predecessors s1)(this := predecessors s1 this @ [ff])\<rparr>
                   else s1)
         in Option.bind (if \<not> v then setPredecessorsFrom ins ff 0 s2 else Some s2)
              (\<lambda>s3. setPredecessorsFrom ins this (i + 1) (addPredecessorsFrom this ff 0 s3)))
      else Some s)"

text \<open>\<open>f.setPredecessors()\<close>, as \<open>makePredecessorLists\<close> and the recursion call it.\<close>

definition setPredecessors :: "(factor \<Rightarrow> link list) \<Rightarrow> factor \<Rightarrow> marks \<Rightarrow> marks option" where
  "setPredecessors ins this s = setPredecessorsFrom ins this 0 s"

text \<open>The last loop of \<open>makePredecessorLists\<close>, over the factors of the store.\<close>

fun setAllPredecessors :: "(factor \<Rightarrow> link list) \<Rightarrow> factor list \<Rightarrow> marks \<Rightarrow> marks option" where
  "setAllPredecessors ins [] s = Some s"
| "setAllPredecessors ins (f # fs) s =
     Option.bind (setPredecessors ins f s) (setAllPredecessors ins fs)"

text \<open>
  The first two \<open>for\<close> statements of \<open>makePredecessorLists\<close>: empty the predecessor list of every
  factor of the store, then clear the \<open>visited\<close> mark of every link of the store.
\<close>

definition resetMarks :: "factor list \<Rightarrow> link list \<Rightarrow> marks \<Rightarrow> marks" where
  "resetMarks fs ls s =
     fold (\<lambda>l s. s\<lparr>visited := (visited s)(l := False)\<rparr>) ls
       (fold (\<lambda>f s. s\<lparr>predecessors := (predecessors s)(f := [])\<rparr>) fs s)"

definition makePredecessorLists :: "model \<Rightarrow> model option" where
  "makePredecessorLists m =
     Option.bind
       (setAllPredecessors (inputs m) (factors m)
          (resetMarks (factors m) (links m) (marks.truncate m)))
       (\<lambda>s. Some (m\<lparr>visited := visited s, predecessors := predecessors s\<rparr>))"

section \<open>Path matrix and cycle list\<close>

text \<open>
  \<open>this.path_matrix[p[0].identifier].push(p)\<close>: a \<open>TypeError\<close> (here \<open>None\<close>) when the
  matrix has no entry for the first factor of \<open>p\<close>.
\<close>

definition pushPath :: "path \<Rightarrow> pmatrix \<Rightarrow> pmatrix option" where
  "pushPath p pm =
     (case p of [] \<Rightarrow> None
      | k # _ \<Rightarrow> (case map_of pm k of None \<Rightarrow> None
                  | Some pl \<Rightarrow> Some (AList.update k (pl @ [p]) pm)))"

text \<open>
  \<open>sproutPathsFrom\<close>, with the index \<open>i\<close> of its loop over the outgoing links of the last
  factor of \<open>path\<close>. The method reads the \<open>outputs\<close> lists, here \<open>outs\<close>, and writes the
  path matrix, here the state \<open>pm\<close>. The result \<open>None\<close> means that the call does not
  return normally: it runs forever, or raises a \<open>TypeError\<close> (an empty \<open>path\<close> has no last
  factor).
\<close>

partial_function (option) sproutPathsFrom ::
  "(factor \<Rightarrow> link list) \<Rightarrow> path \<Rightarrow> nat \<Rightarrow> pmatrix \<Rightarrow> pmatrix option" where
  "sproutPathsFrom outs path i pm =
     (if path = [] then None
      else if i < length (outs (last path)) then
        (let tf = to_factor (outs (last path) ! i);
             tfi = indexOf path tf
         in if tfi \<le> 0 then
              (case pushPath (path @ [tf]) pm of
                 None \<Rightarrow> None
               | Some pm1 \<Rightarrow>
                   Option.bind
                     (if tfi < 0 then sproutPathsFrom outs (path @ [tf]) 0 pm1 else Some pm1)
                     (\<lambda>pm2. sproutPathsFrom outs path (i + 1) pm2))
            else sproutPathsFrom outs path (i + 1) pm)
      else Some pm)"

text \<open>The loop over \<open>j\<close> in \<open>buildPathMatrix\<close>, for the factor with key \<open>k\<close>.\<close>

fun pathsOfFactor :: "(factor \<Rightarrow> link list) \<Rightarrow> factor \<Rightarrow> link list \<Rightarrow> pmatrix \<Rightarrow> pmatrix option" where
  "pathsOfFactor outs k [] pm = Some pm"
| "pathsOfFactor outs k (l # ls) pm =
     Option.bind
       (let path = [k, to_factor l];
            pm1 = AList.update k [path] pm
        in if k \<noteq> to_factor l then sproutPathsFrom outs path 0 pm1 else Some pm1)
       (pathsOfFactor outs k ls)"

text \<open>The loop over the factors \<open>k\<close> of the store in \<open>buildPathMatrix\<close>.\<close>

fun pathsOfFactors :: "(factor \<Rightarrow> link list) \<Rightarrow> factor list \<Rightarrow> pmatrix \<Rightarrow> pmatrix option" where
  "pathsOfFactors outs [] pm = Some pm"
| "pathsOfFactors outs (k # ks) pm =
     Option.bind (pathsOfFactor outs k (outs k) pm) (pathsOfFactors outs ks)"

text \<open>\<open>p[0] === p[p.length - 1]\<close>; both are \<open>undefined\<close> for an empty array.\<close>

definition closesOnOrigin :: "path \<Rightarrow> bool" where
  "closesOnOrigin p = (case p of [] \<Rightarrow> True | x # _ \<Rightarrow> x = last p)"

text \<open>The loop \<open>for(j = 0; j < cycle_list.length && !known; j++) known = ...\<close>.\<close>

fun knownCycle :: "path \<Rightarrow> path list \<Rightarrow> bool" where
  "knownCycle p [] = False"
| "knownCycle p (c # cs) =
     (if length p = length c \<and> length (intersection p c) = length p then True
      else knownCycle p cs)"

text \<open>What filling the cycle list does with one recorded path \<open>p\<close>.\<close>

definition registerPath :: "path \<Rightarrow> path list \<Rightarrow> path list" where
  "registerPath p cl =
     (if closesOnOrigin p then (if \<not> knownCycle p cl then cl @ [p] else cl) else cl)"

text \<open>The cycle list that the second half of \<open>buildPathMatrix\<close> builds from the matrix.\<close>

definition registerCycles :: "pmatrix \<Rightarrow> path list" where
  "registerCycles pm = fold (\<lambda>(k, pl) cl. fold registerPath pl cl) pm []"

definition buildPathMatrix :: "model \<Rightarrow> model option" where
  "buildPathMatrix m =
     Option.bind (pathsOfFactors (outputs m) (factors m) [])
       (\<lambda>pm. Some (m\<lparr>path_matrix := pm, cycle_list := registerCycles pm\<rparr>))"

section \<open>Feedback links\<close>

text \<open>
  The loop body of \<open>cleanUpFeedbackLinks\<close>:
  \<open>l.is_feedback = (l.from_factor.predecessors.indexOf(l.to_factor) >= 0)\<close>.
\<close>

definition setFeedback :: "link \<Rightarrow> model \<Rightarrow> model" where
  "setFeedback l m =
     m\<lparr>is_feedback := (is_feedback m)
          (l := (indexOf (predecessors m (from_factor l)) (to_factor l) \<ge> 0))\<rparr>"

text \<open>The full recompute; the redrawing of the diagram is left out.\<close>

definition cleanUpFeedbackLinks :: "model \<Rightarrow> model option" where
  "cleanUpFeedbackLinks m =
     Option.bind (buildPathMatrix m)
       (\<lambda>m1. Option.bind (makePredecessorLists m1)
          (\<lambda>m2. Some (fold setFeedback (links m2) m2)))"

section \<open>Deleting links and factors\<close>

text \<open>The three removals of \<open>deleteLink\<close>, before it calls \<open>cleanUpFeedbackLinks\<close>.\<close>

definition unlink :: "model \<Rightarrow> link \<Rightarrow> model" where
  "unlink m l =
     (let m1 = m\<lparr>outputs := (outputs m)
                  (from_factor l := spliceOut (outputs m (from_factor l)) l)\<rparr>;
          m2 = m1\<lparr>inputs := (inputs m1)
                  (to_factor l := spliceOut (inputs m1 (to_factor l)) l)\<rparr>
      in m2\<lparr>links := removeAll l (links m2)\<rparr>)"

definition deleteLink :: "model \<Rightarrow> link \<Rightarrow> model option" where
  "deleteLink m l = cleanUpFeedbackLinks (unlink m l)"

text \<open>
  \<open>deleteFactor\<close> tests \<open>l.from_node == node || l.to_node == node\<close>. Class \<open>Link\<close> has the
  properties \<open>from_factor\<close> and \<open>to_factor\<close>; it has no property \<open>from_node\<close> or \<open>to_node\<close>,
  so both reads give \<open>undefined\<close> (here \<open>None\<close>), which is not \<open>==\<close> to a Factor object.
\<close>

definition from_node :: "link \<Rightarrow> factor option" where
  "from_node l = None"

definition to_node :: "link \<Rightarrow> factor option" where
  "to_node l = None"

text \<open>
  The loop of \<open>deleteFactor\<close> over the keys of \<open>this.links\<close>; a key deleted before the
  loop reaches it is skipped.
\<close>

fun deleteLinksOf :: "factor \<Rightarrow> link list \<Rightarrow> model \<Rightarrow> model option" where
  "deleteLinksOf node [] m = Some m"
| "deleteLinksOf node (l # ls) m =
     (if l \<in> set (links m) \<and> (from_node l = Some node \<or> to_node l = Some node)
      then Option.bind (deleteLink m l) (deleteLinksOf node ls)
      else deleteLinksOf node ls m)"

text \<open>
  \<open>node.parent.deleteFactor(node)\<close>: \<open>node.parent\<close> is a Cluster, and neither class
  \<open>Cluster\<close> nor its ancestors define a method \<open>deleteFactor\<close>, so the call raises a
  \<open>TypeError\<close> and the statements after it are not reached.
\<close>

definition cluster_deleteFactor :: "(model \<Rightarrow> factor \<Rightarrow> model) option" where
  "cluster_deleteFactor = None"

text \<open>
  The result of \<open>deleteFactor\<close> is \<open>None\<close> when a recompute inside it does not return,
  \<open>Inl (e, m')\<close> when it raises \<open>e\<close> and leaves the model as \<open>m'\<close>, \<open>Inr m'\<close> when it returns.
\<close>

definition deleteFactor :: "model \<Rightarrow> factor \<Rightarrow> (error \<times> model + model) option" where
  "deleteFactor m node =
     Option.bind (deleteLinksOf node (links m) m)
       (\<lambda>m1. case cluster_deleteFactor of
                None \<Rightarrow> Some (Inl (TypeError, m1))
              | Some del \<Rightarrow> Some (Inr ((del m1 node)\<lparr>factors := removeAll node (factors m1)\<rparr>)))"

section \<open>Graphs\<close>

text \<open>Every step of the path is a link of the list.\<close>

fun isWalk :: "link list \<Rightarrow> path \<Rightarrow> bool" where
  "isWalk ls [] = True"
| "isWalk ls [x] = True"
| "isWalk ls (x # y # p) = ((x, y) \<in> set ls \<and> isWalk ls (y # p))"

text \<open>At least two factors, none twice, but the last may be the first again.\<close>

definition simplePath :: "path \<Rightarrow> bool" where
  "simplePath p \<longleftrightarrow> 2 \<le> length p \<and> distinct (butlast p) \<and> distinct (tl p)"

text \<open>The model after \<open>reset\<close>: no factors, no links.\<close>

definition emptyModel :: model where
  "emptyModel =
     \<lparr>visited = (\<lambda>_. False), predecessors = (\<lambda>_. []),
      factors = [], links = [], inputs = (\<lambda>_. []), outputs = (\<lambda>_. []),
      is_feedback = (\<lambda>_. False), path_matrix = [], cycle_list = []\<rparr>"

text \<open>
  The graph store is consistent: every link joins two factors of the store, and the
  \<open>inputs\<close> and \<open>outputs\<close> lists of the factors hold exactly the links of the store.
\<close>

definition wellformed :: "model \<Rightarrow> bool" where
  "wellformed m \<longleftrightarrow>
     distinct (factors m) \<and> distinct (links m) \<and>
     (\<forall>l \<in> set (links m).
        from_factor l \<in> set (factors m) \<and> to_factor l \<in> set (factors m) \<and>
        l \<in> set (outputs m (from_factor l)) \<and> l \<in> set (inputs m (to_factor l))) \<and>
     (\<forall>f \<in> set (factors m).
        distinct (inputs m f) \<and> distinct (outputs m f) \<and>
        (\<forall>l \<in> set (inputs m f). l \<in> set (links m) \<and> to_factor l = f) \<and>
        (\<forall>l \<in> set (outputs m f). l \<in> set (links m) \<and> from_factor l = f))"

text \<open>
  Every path of the matrix starts with the key of its entry, is simple, walks along
  links of \<open>ls\<close> and stays within the factors \<open>F\<close>.
\<close>

definition recorded_ok :: "factor set \<Rightarrow> link list \<Rightarrow> pmatrix \<Rightarrow> bool" where
  "recorded_ok F ls pm \<longleftrightarrow>
     (\<forall>k pl. (k, pl) \<in> set pm \<longrightarrow>
        (\<forall>p \<in> set pl. hd p = k \<and> simplePath p \<and> isWalk ls p \<and> set p \<subseteq> F))"

text \<open>The \<open>outputs\<close> lists of the factors \<open>F\<close> hold links of \<open>ls\<close> that leave them.\<close>

definition outsOk :: "(factor \<Rightarrow> link list) \<Rightarrow> factor set \<Rightarrow> link list \<Rightarrow> bool" where
  "outsOk outs F ls \<longleftrightarrow>
     (\<forall>f \<in> F. \<forall>l \<in> set (outs f). l \<in> set ls \<and> from_factor l = f \<and> to_factor l \<in> F)"

text \<open>The \<open>inputs\<close> lists of the factors \<open>F\<close> hold links of \<open>ls\<close> that enter them.\<close>

definition insOk :: "(factor \<Rightarrow> link list) \<Rightarrow> factor set \<Rightarrow> link list \<Rightarrow> bool" where
  "insOk ins F ls \<longleftrightarrow>
     (\<forall>f \<in> F. \<forall>l \<in> set (ins f). l \<in> set ls \<and> to_factor l = f \<and> from_factor l \<in> F)"

text \<open>Every listed predecessor of a factor of \<open>F\<close> reaches it along links of \<open>ls\<close>.\<close>

definition sound :: "factor set \<Rightarrow> link list \<Rightarrow> marks \<Rightarrow> bool" where
  "sound F ls s \<longleftrightarrow> (\<forall>f \<in> F. \<forall>p \<in> set (predecessors s f). (p, f) \<in> (set ls)\<^sup>+)"

text \<open>
  What a run of \<open>setPredecessors\<close> may change: marks are only set, and only on links of
  \<open>ls\<close>; predecessor lists change only for factors of \<open>F\<close>, and stay sound.
\<close>

definition evolves :: "factor set \<Rightarrow> link list \<Rightarrow> marks \<Rightarrow> marks \<Rightarrow> bool" where
  "evolves F ls s s' \<longleftrightarrow>
     (\<forall>l. visited s l \<longrightarrow> visited s' l) \<and>
     (\<forall>l. l \<notin> set ls \<longrightarrow> visited s' l = visited s l) \<and>
     (\<forall>g. g \<notin> F \<longrightarrow> predecessors s' g = predecessors s g) \<and>
     (sound F ls s \<longrightarrow> sound F ls s')"

text \<open>The links of \<open>ls\<close> that are not marked as visited.\<close>

definition unvisited :: "link list \<Rightarrow> marks \<Rightarrow> link set" where
  "unvisited ls s = {l \<in> set ls. \<not> visited s l}"

text \<open>
  The model that a recompute leaves, given the path matrix \<open>pm\<close> and the marks \<open>s\<close> that
  its two passes computed.
\<close>

definition recomputed :: "model \<Rightarrow> pmatrix \<Rightarrow> marks \<Rightarrow> model" where
  "recomputed m pm s =
     m\<lparr>visited := visited s, predecessors := predecessors s,
       is_feedback := (\<lambda>l. if l \<in> set (links m)
          then to_factor l \<in> set (predecessors s (from_factor l)) else is_feedback m l),
       path_matrix := pm, cycle_list := registerCycles pm\<rparr>"

text \<open>
  The spec's rule for the Cycle Registry: two candidates are the same cycle iff they
  have equal length and every node of one occurs in the other.
\<close>

definition sameCycle :: "path \<Rightarrow> path \<Rightarrow> bool" where
  "sameCycle p c \<longleftrightarrow> length p = length c \<and> set p = set c"

text \<open>
  The registry as the spec words it: a candidate is appended iff no cycle accepted
  before it is the same cycle.
\<close>

fun specRegister :: "path list \<Rightarrow> path list \<Rightarrow> path list" where
  "specRegister [] cl = cl"
| "specRegister (p # ps) cl =
     specRegister ps (if list_ex (sameCycle p) cl then cl else cl @ [p])"

text \<open>
  The spec's cycle candidate: a path whose last node equals its first node and whose
  length is at least 2.
\<close>

definition isCycleCandidate :: "path \<Rightarrow> bool" where
  "isCycleCandidate p \<longleftrightarrow> 2 \<le> length p \<and> last p = hd p"

text \<open>The cycle candidates among the paths of a matrix, in the order of its entries.\<close>

definition cycleCandidates :: "pmatrix \<Rightarrow> path list" where
  "cycleCandidates pm = filter isCycleCandidate (concat (map snd pm))"

section \<open>Example graphs\<close>

text \<open>The ring \<open>0 \<rightarrow> 1 \<rightarrow> 2 \<rightarrow> 0\<close> and the unrelated link \<open>3 \<rightarrow> 4\<close>.\<close>

definition ringModel :: model where
  "ringModel =
     addLink (addLink (addLink (addLink (foldl addFactor emptyModel [0, 1, 2, 3, 4]) 0 1) 1 2) 2 0) 3 4"

text \<open>A factor with a link to itself and a second outgoing link.\<close>

definition loopForkModel :: model where
  "loopForkModel = addLink (addLink (foldl addFactor emptyModel [0, 1]) 0 0) 0 1"

text \<open>A factor with two outgoing links.\<close>

definition forkModel :: model where
  "forkModel = addLink (addLink (foldl addFactor emptyModel [0, 1, 2]) 0 1) 0 2"

text \<open>
  Four factors on the cycle \<open>0 \<rightarrow> 2 \<rightarrow> 1 \<rightarrow> 3 \<rightarrow> 0\<close>, with the chord \<open>2 \<rightarrow> 3\<close>; the links are
  added in the order \<open>0 \<rightarrow> 2\<close>, \<open>2 \<rightarrow> 1\<close>, \<open>2 \<rightarrow> 3\<close>, \<open>1 \<rightarrow> 3\<close>, \<open>3 \<rightarrow> 0\<close>.
\<close>

definition chordModel :: model where
  "chordModel =
     addLink (addLink (addLink (addLink (addLink
       (foldl addFactor emptyModel [0, 1, 2, 3]) 0 2) 2 1) 2 3) 1 3) 3 0"

text \<open>The same graph, with the links \<open>2 \<rightarrow> 3\<close> and \<open>1 \<rightarrow> 3\<close> added in the other order.\<close>

definition chordModelSwapped :: model where
  "chordModelSwapped =
     addLink (addLink (addLink (addLink (addLink
       (foldl addFactor emptyModel [0, 1, 2, 3]) 0 2) 2 1) 1 3) 2 3) 3 0"

text \<open>
  Five factors on the cycle \<open>0 \<rightarrow> 2 \<rightarrow> 1 \<rightarrow> 4 \<rightarrow> 3 \<rightarrow> 0\<close>, with the chord \<open>2 \<rightarrow> 3\<close>; the
  links are added in the order \<open>0 \<rightarrow> 2\<close>, \<open>2 \<rightarrow> 3\<close>, \<open>2 \<rightarrow> 1\<close>, \<open>4 \<rightarrow> 3\<close>, \<open>1 \<rightarrow> 4\<close>, \<open>3 \<rightarrow> 0\<close>.
\<close>

definition fiveModel :: model where
  "fiveModel =
     addLink (addLink (addLink (addLink (addLink (addLink
       (foldl addFactor emptyModel [0, 1, 2, 3, 4]) 0 2) 2 3) 2 1) 4 3) 1 4) 3 0"

text \<open>Two factors and the link \<open>0 \<rightarrow> 1\<close>.\<close>

definition oneLinkModel :: model where
  "oneLinkModel = addLink (foldl addFactor emptyModel [0, 1]) 0 1"

text \<open>Two factors linked both ways.\<close>

definition mutualModel :: model where
  "mutualModel = addLink (addLink (foldl addFactor emptyModel [0, 1]) 0 1) 1 0"

section \<open>Properties of the path enumeration\<close>

lemma indexOf_zero_iff: "indexOf xs x = 0 \<longleftrightarrow> xs \<noteq> [] \<and> hd xs = x"
proof (cases xs)
  case Nil
  then show ?thesis by simp
next
  case (Cons y ys)
  have "- 1 \<le> indexOf ys x" by (rule indexOf_ge)
  then show ?thesis using Cons by (auto simp: Let_def)
qed

lemma indexOf_le0_iff: "indexOf xs x \<le> 0 \<longleftrightarrow> x \<notin> set xs \<or> (xs \<noteq> [] \<and> hd xs = x)"
  using indexOf_zero_iff [of xs x] indexOf_neg_iff [of xs x] by linarith

lemma isWalk_snoc:
  "p \<noteq> [] \<Longrightarrow> isWalk ls (p @ [y]) \<longleftrightarrow> isWalk ls p \<and> (last p, y) \<in> set ls"
  by (induction ls p rule: isWalk.induct) auto

lemma pushPath_Some:
  "pushPath p pm = Some pm' \<Longrightarrow>
     \<exists>k q pl. p = k # q \<and> map_of pm k = Some pl \<and> pm' = AList.update k (pl @ [p]) pm"
  by (auto simp: pushPath_def split: list.splits option.splits)

lemma update_keys_same: "map_of pm k = Some pl \<Longrightarrow> map fst (AList.update k v pm) = map fst pm"
  by (induction pm) (auto split: if_splits)

lemma set_update_subset: "set (AList.update k v pm) \<subseteq> insert (k, v) (set pm)"
  by (induction pm) auto

lemma recorded_ok_update:
  assumes "recorded_ok F ls pm" and "\<forall>p \<in> set v. hd p = k \<and> simplePath p \<and> isWalk ls p \<and> set p \<subseteq> F"
  shows "recorded_ok F ls (AList.update k v pm)"
  using assms set_update_subset [of k v pm] unfolding recorded_ok_def by blast

lemma map_of_recorded:
  "recorded_ok F ls pm \<Longrightarrow> map_of pm k = Some pl \<Longrightarrow> p \<in> set pl \<Longrightarrow>
     hd p = k \<and> simplePath p \<and> isWalk ls p \<and> set p \<subseteq> F"
  unfolding recorded_ok_def by (auto dest!: map_of_SomeD)

lemma extend_ok:
  assumes "path \<noteq> []" "distinct path" "isWalk ls path" "set path \<subseteq> F"
    and "tf \<notin> set path \<or> hd path = tf" and "(last path, tf) \<in> set ls" and "tf \<in> F"
  shows "simplePath (path @ [tf]) \<and> isWalk ls (path @ [tf]) \<and> set (path @ [tf]) \<subseteq> F
         \<and> hd (path @ [tf]) = hd path"
proof -
  have "tf \<notin> set (tl path)"
    using assms(1,2,5) by (cases path) auto
  moreover have "distinct (tl path)" using assms(2) by (simp add: distinct_tl)
  moreover have "tl (path @ [tf]) = tl path @ [tf]" using assms(1) by simp
  ultimately have "distinct (tl (path @ [tf]))" by simp
  moreover have "2 \<le> length (path @ [tf])" using assms(1) by (cases path) auto
  ultimately show ?thesis
    using assms by (simp add: simplePath_def isWalk_snoc)
qed

lemma sprout_ok:
  "sproutPathsFrom outs path i pm = Some pm' \<Longrightarrow>
   outsOk outs F ls \<Longrightarrow> distinct path \<Longrightarrow> isWalk ls path \<Longrightarrow> set path \<subseteq> F \<Longrightarrow>
   recorded_ok F ls pm \<Longrightarrow> recorded_ok F ls pm' \<and> map fst pm' = map fst pm"
proof (induction outs path i pm pm' rule: sproutPathsFrom.raw_induct [rotated 1, consumes 1])
  case (1 sprout outs path i pm pm')
  show ?case
  proof (cases "path = []")
    case True
    with "1.hyps" show ?thesis by simp
  next
    case ne: False
    show ?thesis
    proof (cases "i < length (outs (last path))")
      case False
      with ne "1.hyps" "1.prems" show ?thesis by simp
    next
      case lt: True
      define l where "l = outs (last path) ! i"
      define tf where "tf = to_factor l"
      have lastF: "last path \<in> F" using ne "1.prems"(4) by auto
      have lin: "l \<in> set (outs (last path))" using lt by (simp add: l_def)
      then have l: "l \<in> set ls" "from_factor l = last path" "tf \<in> F"
        using "1.prems"(1) lastF unfolding outsOk_def tf_def by auto
      have "l = (from_factor l, to_factor l)"
        by (simp add: from_factor_def to_factor_def)
      with l have edge: "(last path, tf) \<in> set ls"
        by (simp add: tf_def)
      note body = "1.hyps" [unfolded Let_def, folded l_def, folded tf_def]
      show ?thesis
      proof (cases "indexOf path tf \<le> 0")
        case False
        then have "sprout outs path (i + 1) pm = Some pm'"
          using body ne lt by simp
        from "1.IH" [OF this "1.prems"] show ?thesis .
      next
        case le: True
        with body ne lt have eq:
          "(case pushPath (path @ [tf]) pm of None \<Rightarrow> None
            | Some pm1 \<Rightarrow> Option.bind
                (if indexOf path tf < 0 then sprout outs (path @ [tf]) 0 pm1 else Some pm1)
                (sprout outs path (i + 1))) = Some pm'"
          by simp
        then obtain pm1 where
          push: "pushPath (path @ [tf]) pm = Some pm1" and
          b: "Option.bind
                (if indexOf path tf < 0 then sprout outs (path @ [tf]) 0 pm1 else Some pm1)
                (sprout outs path (i + 1)) = Some pm'"
          by (cases "pushPath (path @ [tf]) pm") simp_all
        from b obtain pm2 where
          rec: "(if indexOf path tf < 0 then sprout outs (path @ [tf]) 0 pm1 else Some pm1) = Some pm2" and
          rest: "sprout outs path (i + 1) pm2 = Some pm'"
          unfolding bind_eq_Some_conv by blast
        have cond: "tf \<notin> set path \<or> hd path = tf"
          using le ne by (auto simp: indexOf_le0_iff)
        note ext = extend_ok [OF ne "1.prems"(2,3,4) cond edge l(3)]
        from pushPath_Some [OF push] obtain k q pl where
          kq: "path @ [tf] = k # q" and mo: "map_of pm k = Some pl" and
          pm1: "pm1 = AList.update k (pl @ [path @ [tf]]) pm" by blast
        have k: "k = hd path" using kq ne by (cases path) auto
        have ok1: "recorded_ok F ls pm1"
          unfolding pm1
          using map_of_recorded [OF "1.prems"(5) mo] ext k
          by (intro recorded_ok_update [OF "1.prems"(5)]) auto
        have keys1: "map fst pm1 = map fst pm"
          unfolding pm1 by (rule update_keys_same [OF mo])
        have ok2: "recorded_ok F ls pm2 \<and> map fst pm2 = map fst pm1"
        proof (cases "indexOf path tf < 0")
          case True
          then have r: "sprout outs (path @ [tf]) 0 pm1 = Some pm2" using rec by simp
          have "tf \<notin> set path" using True by (simp add: indexOf_neg_iff)
          then have d: "distinct (path @ [tf])" using "1.prems"(2) by simp
          from "1.IH" [OF r "1.prems"(1) d] ext ok1 show ?thesis by simp
        next
          case False
          with rec ok1 show ?thesis by simp
        qed
        from "1.IH" [OF rest "1.prems"(1,2,3,4)] ok2 keys1 show ?thesis by simp
      qed
    qed
  qed
qed

lemma pushPath_keys: "pushPath p pm = Some pm1 \<Longrightarrow> map fst pm1 = map fst pm"
  by (auto simp: pushPath_def update_keys_same split: list.splits option.splits)

lemma sprout_keys:
  "sproutPathsFrom outs path i pm = Some pm' \<Longrightarrow> map fst pm' = map fst pm"
proof (induction outs path i pm pm' rule: sproutPathsFrom.raw_induct [rotated 1, consumes 1])
  case (1 sprout outs path i pm pm')
  define tf where "tf = to_factor (outs (last path) ! i)"
  note body = "1.hyps" [unfolded Let_def, folded tf_def]
  show ?case
  proof (cases "path \<noteq> [] \<and> i < length (outs (last path))")
    case False
    with body show ?thesis by (auto split: if_splits)
  next
    case True
    show ?thesis
    proof (cases "indexOf path tf \<le> 0")
      case False
      with body True have "sprout outs path (i + 1) pm = Some pm'" by simp
      then show ?thesis by (rule "1.IH")
    next
      case le: True
      with body True have eq:
        "(case pushPath (path @ [tf]) pm of None \<Rightarrow> None
          | Some pm1 \<Rightarrow> Option.bind
              (if indexOf path tf < 0 then sprout outs (path @ [tf]) 0 pm1 else Some pm1)
              (sprout outs path (i + 1))) = Some pm'"
        by simp
      then obtain pm1 where
        push: "pushPath (path @ [tf]) pm = Some pm1" and
        b: "Option.bind
              (if indexOf path tf < 0 then sprout outs (path @ [tf]) 0 pm1 else Some pm1)
              (sprout outs path (i + 1)) = Some pm'"
        by (cases "pushPath (path @ [tf]) pm") simp_all
      from b obtain pm2 where
        rec: "(if indexOf path tf < 0 then sprout outs (path @ [tf]) 0 pm1 else Some pm1) = Some pm2" and
        rest: "sprout outs path (i + 1) pm2 = Some pm'"
        unfolding bind_eq_Some_conv by blast
      have "map fst pm1 = map fst pm"
        using push by (rule pushPath_keys)
      moreover have "map fst pm2 = map fst pm1"
        using rec "1.IH" by (auto split: if_splits)
      moreover have "map fst pm' = map fst pm2"
        using rest by (rule "1.IH")
      ultimately show ?thesis by simp
    qed
  qed
qed

lemma pushPath_defined:
  "p \<noteq> [] \<Longrightarrow> hd p \<in> fst ` set pm \<Longrightarrow> \<exists>pm1. pushPath p pm = Some pm1"
proof -
  assume p: "p \<noteq> []" and k: "hd p \<in> fst ` set pm"
  from k have "map_of pm (hd p) \<noteq> None" by (simp add: map_of_eq_None_iff)
  then show ?thesis using p by (cases p) (auto simp: pushPath_def)
qed

lemma keys_image: "map fst pm' = map fst pm \<Longrightarrow> fst ` set pm' = fst ` set pm"
  by (metis list.set_map)

lemma sprout_terminates:
  assumes outs: "outsOk outs F ls" and fin: "finite F"
  shows "path \<noteq> [] \<Longrightarrow> set path \<subseteq> F \<Longrightarrow> hd path \<in> fst ` set pm \<Longrightarrow>
         \<exists>pm'. sproutPathsFrom outs path i pm = Some pm'"
proof (induction "card (F - set path)" arbitrary: path i pm rule: less_induct)
  case less
  note outer = less.hyps
  note ne = less.prems(1) and sub = less.prems(2)
  show ?case using less.prems(3)
  proof (induction "length (outs (last path)) - i" arbitrary: i pm rule: less_induct)
    case inner: less
    show ?case
    proof (cases "i < length (outs (last path))")
      case False
      then show ?thesis using ne by (subst sproutPathsFrom.simps) simp
    next
      case lt: True
      define tf where "tf = to_factor (outs (last path) ! i)"
      have "last path \<in> F" using ne sub by auto
      then have tfF: "tf \<in> F"
        using outs lt unfolding outsOk_def tf_def by auto
      show ?thesis
      proof (cases "indexOf path tf \<le> 0")
        case False
        have dec: "length (outs (last path)) - (i + 1) < length (outs (last path)) - i"
          using lt by simp
        from inner.hyps [OF dec inner.prems]
        obtain pm' where "sproutPathsFrom outs path (i + 1) pm = Some pm'" by blast
        then show ?thesis
          using ne lt False by (subst sproutPathsFrom.simps) (simp add: Let_def tf_def)
      next
        case le: True
        have "hd (path @ [tf]) \<in> fst ` set pm" using ne inner.prems by simp
        from pushPath_defined [OF _ this]
        obtain pm1 where push: "pushPath (path @ [tf]) pm = Some pm1" by auto
        have keys1: "fst ` set pm1 = fst ` set pm"
          using pushPath_keys [OF push] by (rule keys_image)
        have "\<exists>pm2. (if indexOf path tf < 0 then sproutPathsFrom outs (path @ [tf]) 0 pm1
                       else Some pm1) = Some pm2 \<and> fst ` set pm2 = fst ` set pm1"
        proof (cases "indexOf path tf < 0")
          case False
          then show ?thesis by simp
        next
          case True
          then have new: "tf \<notin> set path" by (simp add: indexOf_neg_iff)
          have eq: "F - set (path @ [tf]) = (F - set path) - {tf}" by auto
          have "tf \<in> F - set path" using new tfF by simp
          moreover have "finite (F - set path)" using fin by simp
          ultimately have "card ((F - set path) - {tf}) < card (F - set path)"
            by (rule card_Diff1_less [rotated])
          then have "card (F - set (path @ [tf])) < card (F - set path)"
            unfolding eq .
          moreover have "path @ [tf] \<noteq> []" "set (path @ [tf]) \<subseteq> F"
            "hd (path @ [tf]) \<in> fst ` set pm1"
            using sub tfF ne inner.prems keys1 by auto
          ultimately obtain pm2 where r: "sproutPathsFrom outs (path @ [tf]) 0 pm1 = Some pm2"
            using outer [of "path @ [tf]" pm1 0] by blast
          from sprout_keys [OF r] have "fst ` set pm2 = fst ` set pm1" by (rule keys_image)
          with r True show ?thesis by simp
        qed
        then obtain pm2 where
          rec: "(if indexOf path tf < 0 then sproutPathsFrom outs (path @ [tf]) 0 pm1
                 else Some pm1) = Some pm2" and
          keys2: "fst ` set pm2 = fst ` set pm1" by blast
        have dec: "length (outs (last path)) - (i + 1) < length (outs (last path)) - i"
          using lt by simp
        have "hd path \<in> fst ` set pm2" using inner.prems keys1 keys2 by simp
        from inner.hyps [OF dec this]
        obtain pm' where "sproutPathsFrom outs path (i + 1) pm2 = Some pm'" by blast
        then show ?thesis
          using ne lt le push rec
          by (subst sproutPathsFrom.simps) (simp add: Let_def tf_def [symmetric])
      qed
    qed
  qed
qed

lemma wellformed_outsOk:
  assumes "wellformed m"
  shows "outsOk (outputs m) (set (factors m)) (links m)"
  using assms unfolding wellformed_def outsOk_def by blast

lemma keys_update: "fst ` set (AList.update k v pm) = insert k (fst ` set pm)"
  by (simp add: AList.dom_update)

lemma pathsOfFactor_ok:
  assumes outs: "outsOk outs F ls" and fin: "finite F" and k: "k \<in> F"
  shows "set ls' \<subseteq> set (outs k) \<Longrightarrow> recorded_ok F ls pm \<Longrightarrow>
         \<exists>pm'. pathsOfFactor outs k ls' pm = Some pm' \<and> recorded_ok F ls pm'"
proof (induction ls' arbitrary: pm)
  case Nil
  then show ?case by simp
next
  case (Cons l ls')
  define t where "t = to_factor l"
  define pm1 where "pm1 = AList.update k [[k, t]] pm"
  have lin: "l \<in> set (outs k)" using Cons.prems(1) by simp
  then have l: "l \<in> set ls" "from_factor l = k" "t \<in> F"
    using outs k unfolding outsOk_def t_def by auto
  have "l = (from_factor l, to_factor l)"
    by (simp add: from_factor_def to_factor_def)
  with l have edge: "(k, t) \<in> set ls" by (simp add: t_def)
  have ok1: "recorded_ok F ls pm1"
    unfolding pm1_def using edge k l(3)
    by (intro recorded_ok_update [OF Cons.prems(2)]) (simp add: simplePath_def)
  have "\<exists>pm2. (if k \<noteq> t then sproutPathsFrom outs [k, t] 0 pm1 else Some pm1) = Some pm2
              \<and> recorded_ok F ls pm2"
  proof (cases "k = t")
    case True
    with ok1 show ?thesis by simp
  next
    case False
    have "hd [k, t] \<in> fst ` set pm1" by (simp add: pm1_def keys_update)
    with sprout_terminates [OF outs fin, of "[k, t]" pm1 0] k l(3)
    obtain pm2 where r: "sproutPathsFrom outs [k, t] 0 pm1 = Some pm2" by auto
    from sprout_ok [OF r outs _ _ _ ok1, of ] False edge k l(3)
    have "recorded_ok F ls pm2" by simp
    with r False show ?thesis by simp
  qed
  then obtain pm2 where
    r: "(if k \<noteq> t then sproutPathsFrom outs [k, t] 0 pm1 else Some pm1) = Some pm2" and
    ok2: "recorded_ok F ls pm2" by blast
  from Cons.IH [OF _ ok2] Cons.prems(1)
  obtain pm' where "pathsOfFactor outs k ls' pm2 = Some pm'" "recorded_ok F ls pm'" by auto
  moreover have "pathsOfFactor outs k (l # ls') pm =
      Option.bind (if k \<noteq> t then sproutPathsFrom outs [k, t] 0 pm1 else Some pm1)
        (pathsOfFactor outs k ls')"
    by (simp add: Let_def t_def pm1_def)
  ultimately show ?case using r by simp
qed

lemma pathsOfFactors_ok:
  assumes outs: "outsOk outs F ls" and fin: "finite F"
  shows "set ks \<subseteq> F \<Longrightarrow> recorded_ok F ls pm \<Longrightarrow>
         \<exists>pm'. pathsOfFactors outs ks pm = Some pm' \<and> recorded_ok F ls pm'"
proof (induction ks arbitrary: pm)
  case Nil
  then show ?case by simp
next
  case (Cons k ks)
  then have k: "k \<in> F" by simp
  from pathsOfFactor_ok [OF outs fin k subset_refl Cons.prems(2)]
  obtain pm1 where "pathsOfFactor outs k (outs k) pm = Some pm1" "recorded_ok F ls pm1" by blast
  moreover from Cons.IH [OF _ this(2)] Cons.prems(1)
  obtain pm' where "pathsOfFactors outs ks pm1 = Some pm'" "recorded_ok F ls pm'" by auto
  ultimately show ?case by simp
qed

lemma set_fold_registerPath:
  "set (fold registerPath pl cl) \<subseteq> set cl \<union> {p \<in> set pl. closesOnOrigin p}"
proof (induction pl arbitrary: cl)
  case Nil
  show ?case by simp
next
  case (Cons p pl)
  have "set (registerPath p cl) \<subseteq> set cl \<union> {q \<in> {p}. closesOnOrigin q}"
    by (auto simp: registerPath_def)
  with Cons [of "registerPath p cl"] show ?case by auto
qed

lemma set_fold_registerEntries:
  "set (fold (\<lambda>(k, pl) cl. fold registerPath pl cl) pm cl)
     \<subseteq> set cl \<union> {p. \<exists>k pl. (k, pl) \<in> set pm \<and> p \<in> set pl \<and> closesOnOrigin p}"
proof (induction pm arbitrary: cl)
  case Nil
  show ?case by simp
next
  case (Cons e pm)
  obtain k pl where e: "e = (k, pl)" by (cases e)
  show ?case
    using Cons [of "fold registerPath pl cl"] set_fold_registerPath [of pl cl]
    unfolding e by (simp del: fold_simps add: fold_Cons) blast
qed

lemma set_registerCycles:
  "c \<in> set (registerCycles pm) \<Longrightarrow> \<exists>k pl. (k, pl) \<in> set pm \<and> c \<in> set pl \<and> closesOnOrigin c"
  using set_fold_registerEntries [of pm "[]"] unfolding registerCycles_def by auto

lemma buildPathMatrix_ok:
  assumes wf: "wellformed m"
  shows "\<exists>pm. pathsOfFactors (outputs m) (factors m) [] = Some pm \<and>
           buildPathMatrix m = Some (m\<lparr>path_matrix := pm, cycle_list := registerCycles pm\<rparr>) \<and>
           recorded_ok (set (factors m)) (links m) pm"
proof -
  have "recorded_ok (set (factors m)) (links m) []" by (simp add: recorded_ok_def)
  from pathsOfFactors_ok [OF wellformed_outsOk [OF wf] _ subset_refl this]
  obtain pm where "pathsOfFactors (outputs m) (factors m) [] = Some pm"
    "recorded_ok (set (factors m)) (links m) pm" by auto
  then show ?thesis by (simp add: buildPathMatrix_def)
qed

lemma closesOnOrigin_iff: "p \<noteq> [] \<Longrightarrow> closesOnOrigin p \<longleftrightarrow> last p = hd p"
  by (cases p) (auto simp: closesOnOrigin_def)

section \<open>Properties of the predecessor lists\<close>

lemma evolves_refl: "evolves F ls s s"
  by (simp add: evolves_def)

lemma evolves_trans: "evolves F ls s s' \<Longrightarrow> evolves F ls s' s'' \<Longrightarrow> evolves F ls s s''"
  unfolding evolves_def by auto

lemma addPredecessorsFrom_visited: "visited (addPredecessorsFrom this ff j s) = visited s"
proof (induction this ff j s rule: addPredecessorsFrom.induct)
  case (1 this ff j s)
  show ?case
    using "1.IH" by (subst addPredecessorsFrom.simps) (auto simp: Let_def)
qed

lemma addPredecessorsFrom_other:
  "g \<noteq> this \<Longrightarrow> predecessors (addPredecessorsFrom this ff j s) g = predecessors s g"
proof (induction this ff j s rule: addPredecessorsFrom.induct)
  case (1 this ff j s)
  show ?case
    using "1.IH" "1.prems" by (subst addPredecessorsFrom.simps) (auto simp: Let_def)
qed

lemma addPredecessorsFrom_subset:
  "set (predecessors (addPredecessorsFrom this ff j s) this)
     \<subseteq> set (predecessors s this) \<union> set (predecessors s ff)"
proof (induction this ff j s rule: addPredecessorsFrom.induct)
  case (1 this ff j s)
  show ?case
  proof (cases "j < length (predecessors s ff)")
    case False
    then show ?thesis by (subst addPredecessorsFrom.simps) simp
  next
    case True
    define f where "f = predecessors s ff ! j"
    define s' where "s' = (if indexOf (predecessors s this) f < 0
            then s\<lparr>predecessors := (predecessors s)(this := predecessors s this @ [f])\<rparr>
            else s)"
    have f: "f \<in> set (predecessors s ff)" using True by (simp add: f_def)
    have a: "set (predecessors s' this) \<subseteq> set (predecessors s this) \<union> set (predecessors s ff)"
      using f by (auto simp: s'_def)
    have b: "set (predecessors s' ff) \<subseteq> set (predecessors s this) \<union> set (predecessors s ff)"
      using f by (auto simp: s'_def)
    have "addPredecessorsFrom this ff j s = addPredecessorsFrom this ff (j + 1) s'"
      using True by (subst addPredecessorsFrom.simps) (simp add: Let_def s'_def f_def)
    moreover have "set (predecessors (addPredecessorsFrom this ff (j + 1) s') this)
        \<subseteq> set (predecessors s' this) \<union> set (predecessors s' ff)"
      using "1.IH" [OF True f_def] unfolding s'_def .
    ultimately show ?thesis using a b by auto
  qed
qed

lemma link_pair: "l = (from_factor l, to_factor l)"
  by (simp add: from_factor_def to_factor_def)

lemma evolves_mark:
  "l \<in> set ls \<Longrightarrow> evolves F ls s (s\<lparr>visited := (visited s)(l := True)\<rparr>)"
  by (auto simp: evolves_def sound_def)

lemma evolves_push:
  assumes "this \<in> F" and "(ff, this) \<in> set ls"
  shows "evolves F ls s
     (if indexOf (predecessors s this) ff < 0
      then s\<lparr>predecessors := (predecessors s)(this := predecessors s this @ [ff])\<rparr> else s)"
  using assms by (auto simp: evolves_def sound_def)

lemma evolves_addPredecessors:
  assumes "this \<in> F" and "ff \<in> F" and "(ff, this) \<in> set ls"
  shows "evolves F ls s (addPredecessorsFrom this ff 0 s)"
proof -
  let ?s' = "addPredecessorsFrom this ff 0 s"
  have "sound F ls ?s'" if snd: "sound F ls s"
    unfolding sound_def
  proof (intro ballI)
    fix f p assume f: "f \<in> F" and p: "p \<in> set (predecessors ?s' f)"
    show "(p, f) \<in> (set ls)\<^sup>+"
    proof (cases "f = this")
      case False
      with p have "p \<in> set (predecessors s f)" by (simp add: addPredecessorsFrom_other)
      with snd f show ?thesis by (auto simp: sound_def)
    next
      case True
      with p addPredecessorsFrom_subset [of this ff 0 s]
      have "p \<in> set (predecessors s this) \<or> p \<in> set (predecessors s ff)" by auto
      then show ?thesis
      proof
        assume "p \<in> set (predecessors s this)"
        with snd assms(1) True show ?thesis by (auto simp: sound_def)
      next
        assume "p \<in> set (predecessors s ff)"
        with snd assms(2) have "(p, ff) \<in> (set ls)\<^sup>+" by (auto simp: sound_def)
        with assms(3) True show ?thesis by (auto intro: trancl_into_trancl)
      qed
    qed
  qed
  moreover have "predecessors ?s' g = predecessors s g" if "g \<notin> F" for g
    using that assms(1) by (intro addPredecessorsFrom_other) auto
  ultimately show ?thesis
    by (simp add: evolves_def addPredecessorsFrom_visited)
qed

lemma setPredecessorsFrom_evolves:
  "setPredecessorsFrom ins this i s = Some s' \<Longrightarrow> insOk ins F ls \<Longrightarrow> this \<in> F \<Longrightarrow>
   evolves F ls s s'"
proof (induction ins this i s s' rule: setPredecessorsFrom.raw_induct [rotated 1, consumes 1])
  case (1 setPreds ins this i s s')
  note ins = "1.prems"(1) and thisF = "1.prems"(2)
  show ?case
  proof (cases "i < length (ins this)")
    case False
    with "1.hyps" show ?thesis by (simp add: evolves_refl)
  next
    case lt: True
    define l where "l = ins this ! i"
    define ff where "ff = from_factor l"
    define s1 where "s1 = s\<lparr>visited := (visited s)(l := True)\<rparr>"
    define s2 where "s2 = (if indexOf (predecessors s1 this) ff < 0
                   then s1\<lparr>predecessors := (predecessors s1)(this := predecessors s1 this @ [ff])\<rparr>
                   else s1)"
    note body = "1.hyps" [unfolded Let_def, folded l_def, folded ff_def, folded s1_def, folded s2_def]
    have "l \<in> set (ins this)" using lt by (simp add: l_def)
    then have l: "l \<in> set ls" "to_factor l = this" "ff \<in> F"
      using ins thisF unfolding insOk_def ff_def by auto
    with link_pair [of l] have edge: "(ff, this) \<in> set ls" by (simp add: ff_def)
    from body lt obtain s3 where
      rec: "(if \<not> visited s l then setPreds ins ff 0 s2 else Some s2) = Some s3" and
      rest: "setPreds ins this (i + 1) (addPredecessorsFrom this ff 0 s3) = Some s'"
      by (auto simp: bind_eq_Some_conv)
    have e1: "evolves F ls s s1" unfolding s1_def by (rule evolves_mark [OF l(1)])
    have e2: "evolves F ls s1 s2" unfolding s2_def by (rule evolves_push [OF thisF edge])
    have e3: "evolves F ls s2 s3"
    proof (cases "visited s l")
      case True
      with rec show ?thesis by (simp add: evolves_refl)
    next
      case False
      with rec have "setPreds ins ff 0 s2 = Some s3" by simp
      from "1.IH" [OF this ins l(3)] show ?thesis .
    qed
    have e4: "evolves F ls s3 (addPredecessorsFrom this ff 0 s3)"
      by (rule evolves_addPredecessors [OF thisF l(3) edge])
    have e5: "evolves F ls (addPredecessorsFrom this ff 0 s3) s'"
      by (rule "1.IH" [OF rest ins thisF])
    from e1 e2 e3 e4 e5 show ?thesis by (blast intro: evolves_trans)
  qed
qed

section \<open>Termination of the predecessor recursion\<close>

lemma unvisited_mono: "evolves F ls s s' \<Longrightarrow> card (unvisited ls s') \<le> card (unvisited ls s)"
proof -
  assume "evolves F ls s s'"
  then have "unvisited ls s' \<subseteq> unvisited ls s"
    by (auto simp: evolves_def unvisited_def)
  moreover have "finite (unvisited ls s)" by (simp add: unvisited_def)
  ultimately show ?thesis by (rule card_mono [rotated])
qed

lemma unvisited_mark:
  assumes "l \<in> set ls" and "\<not> visited s l"
  shows "card (unvisited ls (s\<lparr>visited := (visited s)(l := True)\<rparr>)) < card (unvisited ls s)"
proof -
  have "unvisited ls (s\<lparr>visited := (visited s)(l := True)\<rparr>) = unvisited ls s - {l}"
    by (auto simp: unvisited_def)
  moreover have "l \<in> unvisited ls s" using assms by (simp add: unvisited_def)
  moreover have "finite (unvisited ls s)" by (simp add: unvisited_def)
  ultimately show ?thesis by (metis card_Diff1_less)
qed

lemma setPredecessorsFrom_terminates:
  assumes ins: "insOk ins F ls"
  shows "this \<in> F \<Longrightarrow> card (unvisited ls s) \<le> n \<Longrightarrow>
         \<exists>s'. setPredecessorsFrom ins this i s = Some s'"
proof (induction n arbitrary: this i s rule: less_induct)
  case (less n)
  note outer = less.IH and thisF = less.prems(1)
  show ?case using less.prems(2)
  proof (induction "length (ins this) - i" arbitrary: i s rule: less_induct)
    case inner: less
    show ?case
    proof (cases "i < length (ins this)")
      case False
      then show ?thesis by (subst setPredecessorsFrom.simps) simp
    next
      case lt: True
      define l where "l = ins this ! i"
      define ff where "ff = from_factor l"
      define s1 where "s1 = s\<lparr>visited := (visited s)(l := True)\<rparr>"
      define s2 where "s2 = (if indexOf (predecessors s1 this) ff < 0
                   then s1\<lparr>predecessors := (predecessors s1)(this := predecessors s1 this @ [ff])\<rparr>
                   else s1)"
      have "l \<in> set (ins this)" using lt by (simp add: l_def)
      then have l: "l \<in> set ls" "to_factor l = this" "ff \<in> F"
        using ins thisF unfolding insOk_def ff_def by auto
      with link_pair [of l] have edge: "(ff, this) \<in> set ls" by (simp add: ff_def)
      have e1: "evolves F ls s s1" unfolding s1_def by (rule evolves_mark [OF l(1)])
      have e2: "evolves F ls s1 s2" unfolding s2_def by (rule evolves_push [OF thisF edge])
      have "\<exists>s3. (if \<not> visited s l then setPredecessorsFrom ins ff 0 s2 else Some s2) = Some s3
               \<and> evolves F ls s2 s3"
      proof (cases "visited s l")
        case True
        then show ?thesis by (simp add: evolves_refl)
      next
        case False
        from unvisited_mark [OF l(1) False] have "card (unvisited ls s1) < card (unvisited ls s)"
          by (simp add: s1_def)
        with unvisited_mono [OF e2] inner.prems
        have lt_n: "card (unvisited ls s2) < n" by simp
        from outer [OF lt_n l(3) order_refl, of 0]
        obtain s3 where r: "setPredecessorsFrom ins ff 0 s2 = Some s3" by blast
        from setPredecessorsFrom_evolves [OF r ins l(3)] r False show ?thesis by simp
      qed
      then obtain s3 where
        rec: "(if \<not> visited s l then setPredecessorsFrom ins ff 0 s2 else Some s2) = Some s3" and
        e3: "evolves F ls s2 s3" by blast
      define s4 where "s4 = addPredecessorsFrom this ff 0 s3"
      have e4: "evolves F ls s3 s4"
        unfolding s4_def by (rule evolves_addPredecessors [OF thisF l(3) edge])
      from e1 e2 e3 e4 have "evolves F ls s s4" by (blast intro: evolves_trans)
      from unvisited_mono [OF this] inner.prems have le: "card (unvisited ls s4) \<le> n" by simp
      have dec: "length (ins this) - (i + 1) < length (ins this) - i" using lt by simp
      from inner.hyps [OF dec le]
      obtain s' where "setPredecessorsFrom ins this (i + 1) s4 = Some s'" by blast
      moreover have "setPredecessorsFrom ins this i s =
          Option.bind (if \<not> visited s l then setPredecessorsFrom ins ff 0 s2 else Some s2)
            (\<lambda>s3. setPredecessorsFrom ins this (i + 1) (addPredecessorsFrom this ff 0 s3))"
        using lt
        by (subst setPredecessorsFrom.simps) (simp add: Let_def l_def ff_def s1_def s2_def)
      ultimately show ?thesis using rec by (simp add: s4_def)
    qed
  qed
qed

lemma setPredecessors_total:
  assumes "insOk ins F ls" and "this \<in> F"
  shows "\<exists>s'. setPredecessors ins this s = Some s' \<and> evolves F ls s s'"
proof -
  from setPredecessorsFrom_terminates [OF assms order_refl]
  obtain s' where r: "setPredecessorsFrom ins this 0 s = Some s'" by blast
  from setPredecessorsFrom_evolves [OF r assms] r show ?thesis
    by (simp add: setPredecessors_def)
qed

lemma setAllPredecessors_total:
  assumes ins: "insOk ins F ls"
  shows "set fs \<subseteq> F \<Longrightarrow> \<exists>s'. setAllPredecessors ins fs s = Some s' \<and> evolves F ls s s'"
proof (induction fs arbitrary: s)
  case Nil
  show ?case by (simp add: evolves_refl)
next
  case (Cons f fs)
  then have "f \<in> F" by simp
  from setPredecessors_total [OF ins this]
  obtain s1 where s1: "setPredecessors ins f s = Some s1" "evolves F ls s s1" by blast
  from Cons.IH [of s1] Cons.prems
  obtain s' where s': "setAllPredecessors ins fs s1 = Some s'" "evolves F ls s1 s'" by auto
  from s1 s' show ?case by (auto intro: evolves_trans)
qed

lemma resetMarks_predecessors:
  "predecessors (resetMarks fs ls s) f = (if f \<in> set fs then [] else predecessors s f)"
proof -
  have a: "predecessors (fold (\<lambda>l s. s\<lparr>visited := (visited s)(l := False)\<rparr>) ls s) = predecessors s"
    for ls and s :: marks
    by (induction ls arbitrary: s) simp_all
  have b: "predecessors (fold (\<lambda>f s. s\<lparr>predecessors := (predecessors s)(f := [])\<rparr>) fs s) f
      = (if f \<in> set fs then [] else predecessors s f)" for s :: marks
    by (induction fs arbitrary: s) auto
  show ?thesis by (simp add: resetMarks_def a b)
qed

lemma resetMarks_visited:
  "visited (resetMarks fs ls s) l = (if l \<in> set ls then False else visited s l)"
proof -
  have a: "visited (fold (\<lambda>f s. s\<lparr>predecessors := (predecessors s)(f := [])\<rparr>) fs s) = visited s"
    for s :: marks
    by (induction fs arbitrary: s) simp_all
  have b: "visited (fold (\<lambda>l s. s\<lparr>visited := (visited s)(l := False)\<rparr>) ls s) l
      = (if l \<in> set ls then False else visited s l)" for s :: marks
    by (induction ls arbitrary: s) auto
  show ?thesis by (simp add: resetMarks_def a b)
qed

lemma sound_resetMarks: "sound (set fs) ls (resetMarks fs ls s)"
  by (simp add: sound_def resetMarks_predecessors)

lemma wellformed_insOk:
  assumes "wellformed m"
  shows "insOk (inputs m) (set (factors m)) (links m)"
  using assms unfolding wellformed_def insOk_def by blast

lemma fold_setFeedback:
  "fold setFeedback ls m =
     m\<lparr>is_feedback := (\<lambda>l. if l \<in> set ls
          then 0 \<le> indexOf (predecessors m (from_factor l)) (to_factor l)
          else is_feedback m l)\<rparr>"
proof (induction ls arbitrary: m)
  case Nil
  show ?case by simp
next
  case (Cons a ls)
  have "fold setFeedback (a # ls) m = fold setFeedback ls (setFeedback a m)" by simp
  also have "\<dots> = (setFeedback a m)\<lparr>is_feedback := (\<lambda>l. if l \<in> set ls
          then 0 \<le> indexOf (predecessors (setFeedback a m) (from_factor l)) (to_factor l)
          else is_feedback (setFeedback a m) l)\<rparr>"
    by (rule Cons)
  also have "\<dots> = m\<lparr>is_feedback := (\<lambda>l. if l \<in> set (a # ls)
          then 0 \<le> indexOf (predecessors m (from_factor l)) (to_factor l)
          else is_feedback m l)\<rparr>"
    by (intro model.equality) (auto simp: setFeedback_def)
  finally show ?case .
qed

section \<open>The recompute pass\<close>

lemma makePredecessorLists_total:
  assumes wf: "wellformed m"
  shows "\<exists>s. setAllPredecessors (inputs m) (factors m)
              (resetMarks (factors m) (links m) (marks.truncate m)) = Some s \<and>
           makePredecessorLists m = Some (m\<lparr>visited := visited s, predecessors := predecessors s\<rparr>) \<and>
           evolves (set (factors m)) (links m)
              (resetMarks (factors m) (links m) (marks.truncate m)) s"
proof -
  from setAllPredecessors_total [OF wellformed_insOk [OF wf] subset_refl]
  obtain s where
    "setAllPredecessors (inputs m) (factors m)
       (resetMarks (factors m) (links m) (marks.truncate m)) = Some s"
    "evolves (set (factors m)) (links m)
       (resetMarks (factors m) (links m) (marks.truncate m)) s" by blast
  then show ?thesis by (auto simp: makePredecessorLists_def)
qed

lemma cleanUpFeedbackLinks_total:
  assumes wf: "wellformed m"
  shows "\<exists>pm s. pathsOfFactors (outputs m) (factors m) [] = Some pm \<and>
           setAllPredecessors (inputs m) (factors m)
              (resetMarks (factors m) (links m) (marks.truncate m)) = Some s \<and>
           cleanUpFeedbackLinks m = Some (recomputed m pm s) \<and>
           recorded_ok (set (factors m)) (links m) pm \<and>
           evolves (set (factors m)) (links m)
              (resetMarks (factors m) (links m) (marks.truncate m)) s"
proof -
  from buildPathMatrix_ok [OF wf] obtain pm where
    pm: "pathsOfFactors (outputs m) (factors m) [] = Some pm" and
    b: "buildPathMatrix m = Some (m\<lparr>path_matrix := pm, cycle_list := registerCycles pm\<rparr>)" and
    ok: "recorded_ok (set (factors m)) (links m) pm" by blast
  define m1 where "m1 = m\<lparr>path_matrix := pm, cycle_list := registerCycles pm\<rparr>"
  have wf1: "wellformed m1" using wf by (simp add: wellformed_def m1_def)
  have tr: "marks.truncate m1 = marks.truncate m" by (simp add: m1_def marks.truncate_def)
  from makePredecessorLists_total [OF wf1] obtain s where
    s: "setAllPredecessors (inputs m) (factors m)
          (resetMarks (factors m) (links m) (marks.truncate m)) = Some s" and
    mk: "makePredecessorLists m1 = Some (m1\<lparr>visited := visited s, predecessors := predecessors s\<rparr>)" and
    ev: "evolves (set (factors m)) (links m)
          (resetMarks (factors m) (links m) (marks.truncate m)) s"
    unfolding tr by (auto simp: m1_def)
  have "cleanUpFeedbackLinks m = Some (recomputed m pm s)"
    unfolding cleanUpFeedbackLinks_def b m1_def [symmetric]
    by (simp add: mk fold_setFeedback) (simp add: recomputed_def m1_def indexOf_nonneg_iff)
  with pm s ok ev show ?thesis by blast
qed

lemma isWalk_trancl:
  "isWalk ls p \<Longrightarrow> 2 \<le> length p \<Longrightarrow> (hd p, last p) \<in> (set ls)\<^sup>+"
proof (induction ls p rule: isWalk.induct)
  case (3 ls x y p)
  show ?case
  proof (cases p)
    case Nil
    with "3.prems" show ?thesis by auto
  next
    case (Cons z q)
    with "3.IH" "3.prems" have "(y, last (y # p)) \<in> (set ls)\<^sup>+" by simp
    moreover have "(x, y) \<in> set ls" using "3.prems" by simp
    ultimately show ?thesis by (auto intro: trancl_into_trancl2)
  qed
qed simp_all

lemma simplePath_length:
  assumes "simplePath p" and "set p \<subseteq> set fs"
  shows "length p \<le> length fs + 1"
proof -
  have "length (butlast p) = card (set (butlast p))"
    using assms(1) by (simp add: simplePath_def distinct_card)
  also have "\<dots> \<le> card (set fs)"
    using assms(2) by (intro card_mono) (auto dest: in_set_butlastD)
  also have "\<dots> \<le> length fs" by (rule card_length)
  finally show ?thesis by simp
qed

lemma recompute_fixpoint:
  assumes "wellformed m"
  shows "\<exists>m1. cleanUpFeedbackLinks m = Some m1 \<and> cleanUpFeedbackLinks m1 = Some m1 \<and>
           factors m1 = factors m \<and> links m1 = links m \<and>
           inputs m1 = inputs m \<and> outputs m1 = outputs m"
proof -
  let ?F = "set (factors m)" and ?ls = "links m"
  let ?s0 = "resetMarks (factors m) (links m) (marks.truncate m)"
  from cleanUpFeedbackLinks_total [OF assms] obtain pm s where
    pm: "pathsOfFactors (outputs m) (factors m) [] = Some pm" and
    s: "setAllPredecessors (inputs m) (factors m) ?s0 = Some s" and
    r: "cleanUpFeedbackLinks m = Some (recomputed m pm s)" and
    ev: "evolves ?F ?ls ?s0 s" by blast
  define m1 where "m1 = recomputed m pm s"
  have g: "factors m1 = factors m" "links m1 = links m" "inputs m1 = inputs m"
    "outputs m1 = outputs m" by (simp_all add: m1_def recomputed_def)
  have wf1: "wellformed m1" using assms by (simp add: wellformed_def g)
  have "resetMarks (factors m) (links m) (marks.truncate m1) = ?s0"
  proof (rule marks.equality)
    show "visited (resetMarks (factors m) (links m) (marks.truncate m1)) = visited ?s0"
      using ev by (auto simp: fun_eq_iff resetMarks_visited evolves_def m1_def recomputed_def
          marks.truncate_def)
    show "predecessors (resetMarks (factors m) (links m) (marks.truncate m1)) = predecessors ?s0"
      using ev by (auto simp: fun_eq_iff resetMarks_predecessors evolves_def m1_def recomputed_def
          marks.truncate_def)
  qed simp
  with cleanUpFeedbackLinks_total [OF wf1] pm s
  have r1: "cleanUpFeedbackLinks m1 = Some (recomputed m1 pm s)" by (auto simp: g)
  have "recomputed m1 pm s = m1"
    by (rule model.equality) (auto simp: m1_def recomputed_def)
  with r r1 g show ?thesis by (simp add: m1_def)
qed

section \<open>Properties of the cycle registry\<close>

lemma registerCycles_concat:
  "fold (\<lambda>(k, pl) cl. fold registerPath pl cl) pm cl = fold registerPath (concat (map snd pm)) cl"
  by (induction pm arbitrary: cl) (auto simp: case_prod_beta)

lemma length_filter_eq_iff: "length (filter P xs) = length xs \<longleftrightarrow> (\<forall>x \<in> set xs. P x)"
proof (induction xs)
  case Nil
  show ?case by simp
next
  case (Cons x xs)
  show ?case
  proof (cases "P x")
    case True
    with Cons show ?thesis by simp
  next
    case False
    have "length (filter P xs) \<le> length xs" by (rule length_filter_le)
    then have "length (filter P xs) \<noteq> Suc (length xs)" by linarith
    with False show ?thesis by simp
  qed
qed

lemma knownCycle_iff:
  "knownCycle p cl \<longleftrightarrow> (\<exists>c \<in> set cl. length p = length c \<and> set p \<subseteq> set c)"
  by (induction cl) (auto simp: intersection_def length_filter_eq_iff)

text \<open>A closed simple path visits one factor less than its length.\<close>

lemma closed_simple_card:
  assumes "simplePath p" and "closesOnOrigin p"
  shows "card (set p) + 1 = length p"
proof -
  from assms(1) have len: "2 \<le> length p" and d: "distinct (butlast p)"
    by (simp_all add: simplePath_def)
  then have ne: "p \<noteq> []" by auto
  with assms(2) have "last p = hd p" by (simp add: closesOnOrigin_iff)
  moreover have "butlast p \<noteq> []" using len by (cases p) auto
  then have "hd p \<in> set (butlast p)" using ne by (cases p) auto
  moreover have "set p = insert (last p) (set (butlast p))"
    using ne by (metis append_butlast_last_id list.simps(15) rotate1.simps(2) set_rotate1)
  ultimately have "set p = set (butlast p)" by auto
  then have "card (set p) = length (butlast p)" using d by (simp add: distinct_card)
  with len show ?thesis by simp
qed

lemma subset_is_sameCycle:
  assumes "simplePath p" "closesOnOrigin p" "simplePath c" "closesOnOrigin c"
  shows "length p = length c \<and> set p \<subseteq> set c \<longleftrightarrow> sameCycle p c"
proof
  assume a: "length p = length c \<and> set p \<subseteq> set c"
  with closed_simple_card [OF assms(1,2)] closed_simple_card [OF assms(3,4)]
  have "card (set p) = card (set c)" by simp
  with a have "set p = set c" by (simp add: card_subset_eq)
  with a show "sameCycle p c" by (simp add: sameCycle_def)
next
  assume "sameCycle p c"
  then show "length p = length c \<and> set p \<subseteq> set c" by (simp add: sameCycle_def)
qed

lemma registerPath_spec:
  assumes ps: "\<forall>p \<in> set ps. simplePath p"
  shows "\<forall>c \<in> set cl. simplePath c \<and> closesOnOrigin c \<Longrightarrow>
         fold registerPath ps cl = specRegister (filter closesOnOrigin ps) cl"
  using ps
proof (induction ps arbitrary: cl)
  case Nil
  show ?case by simp
next
  case (Cons p ps)
  show ?case
  proof (cases "closesOnOrigin p")
    case False
    then have "registerPath p cl = cl" by (simp add: registerPath_def)
    with False Cons show ?thesis by simp
  next
    case True
    have p: "simplePath p" using Cons.prems(2) by simp
    have "knownCycle p cl \<longleftrightarrow> list_ex (sameCycle p) cl"
      using Cons.prems(1) subset_is_sameCycle [OF p True]
      by (auto simp: knownCycle_iff list_ex_iff)
    then have step: "registerPath p cl = (if list_ex (sameCycle p) cl then cl else cl @ [p])"
      using True by (simp add: registerPath_def)
    have "\<forall>c \<in> set (registerPath p cl). simplePath c \<and> closesOnOrigin c"
      using Cons.prems(1) p True by (auto simp: step)
    from Cons.IH [OF this] Cons.prems(2) True step show ?thesis by simp
  qed
qed

lemma specRegister_no_duplicates:
  "distinct cl \<and> (\<forall>c1 \<in> set cl. \<forall>c2 \<in> set cl. sameCycle c1 c2 \<longrightarrow> c1 = c2) \<Longrightarrow>
   distinct (specRegister ps cl) \<and>
   (\<forall>c1 \<in> set (specRegister ps cl). \<forall>c2 \<in> set (specRegister ps cl). sameCycle c1 c2 \<longrightarrow> c1 = c2)"
proof (induction ps arbitrary: cl)
  case Nil
  then show ?case by simp
next
  case (Cons p ps)
  have sym: "sameCycle a b \<Longrightarrow> sameCycle b a" for a b by (auto simp: sameCycle_def)
  have refl: "sameCycle a a" for a by (simp add: sameCycle_def)
  let ?cl = "if list_ex (sameCycle p) cl then cl else cl @ [p]"
  have "distinct ?cl \<and> (\<forall>c1 \<in> set ?cl. \<forall>c2 \<in> set ?cl. sameCycle c1 c2 \<longrightarrow> c1 = c2)"
  proof (cases "list_ex (sameCycle p) cl")
    case True
    with Cons.prems show ?thesis by simp
  next
    case False
    then have no: "\<forall>c \<in> set cl. \<not> sameCycle p c" by (simp add: list_ex_iff)
    then have "p \<notin> set cl" using refl by blast
    with no sym Cons.prems False show ?thesis by auto
  qed
  from Cons.IH [OF this] show ?case by simp
qed

lemma simple_closesOnOrigin_iff: "simplePath p \<Longrightarrow> closesOnOrigin p \<longleftrightarrow> isCycleCandidate p"
proof -
  assume "simplePath p"
  then have len: "2 \<le> length p" by (simp add: simplePath_def)
  then have "p \<noteq> []" by auto
  with len show ?thesis by (simp add: closesOnOrigin_iff isCycleCandidate_def)
qed

lemma filter_closesOnOrigin_simple:
  "\<forall>p \<in> set ps. simplePath p \<Longrightarrow> filter closesOnOrigin ps = filter isCycleCandidate ps"
  by (rule filter_cong) (auto simp: simple_closesOnOrigin_iff)

lemma specRegister_keeps: "set cl \<subseteq> set (specRegister ps cl)"
proof (induction ps arbitrary: cl)
  case Nil
  show ?case by simp
next
  case (Cons p ps)
  have "set cl \<subseteq> set (if list_ex (sameCycle p) cl then cl else cl @ [p])" by auto
  also have "\<dots> \<subseteq> set (specRegister (p # ps) cl)" using Cons by simp
  finally show ?case .
qed

lemma specRegister_subset: "set (specRegister ps cl) \<subseteq> set cl \<union> set ps"
proof (induction ps arbitrary: cl)
  case Nil
  show ?case by simp
next
  case (Cons p ps)
  have "set (specRegister (p # ps) cl)
      \<subseteq> set (if list_ex (sameCycle p) cl then cl else cl @ [p]) \<union> set ps"
    using Cons by simp
  also have "\<dots> \<subseteq> set cl \<union> set (p # ps)" by auto
  finally show ?case .
qed

lemma specRegister_covers:
  "p \<in> set ps \<Longrightarrow> \<exists>c \<in> set (specRegister ps cl). sameCycle p c"
proof (induction ps arbitrary: cl)
  case Nil
  then show ?case by simp
next
  case (Cons q ps)
  let ?cl = "if list_ex (sameCycle q) cl then cl else cl @ [q]"
  show ?case
  proof (cases "p = q")
    case True
    have "\<exists>c \<in> set ?cl. sameCycle p c"
      using True by (auto simp: list_ex_iff sameCycle_def)
    then obtain c where c: "c \<in> set ?cl" "sameCycle p c" by blast
    have "set ?cl \<subseteq> set (specRegister ps ?cl)" by (rule specRegister_keeps)
    with c(1) have "c \<in> set (specRegister (q # ps) cl)" by auto
    with c(2) show ?thesis by blast
  next
    case False
    with Cons.prems have "p \<in> set ps" by simp
    from Cons.IH [OF this, of ?cl] show ?thesis by simp
  qed
qed

section \<open>Deleting a link\<close>

lemma spliceOut_remove1: "spliceOut xs x = remove1 x xs"
proof (induction xs)
  case Nil
  show ?case by (simp add: spliceOut_def)
next
  case (Cons y ys)
  show ?case
  proof (cases "y = x")
    case True
    then show ?thesis by (simp add: spliceOut_def)
  next
    case False
    have ge: "- 1 \<le> indexOf ys x" by (rule indexOf_ge)
    show ?thesis
    proof (cases "indexOf ys x < 0")
      case True
      then have "x \<notin> set ys" by (simp add: indexOf_neg_iff)
      with True False show ?thesis by (simp add: spliceOut_def Let_def remove1_idem)
    next
      case nonneg: False
      then have "nat (indexOf ys x + 1) = Suc (nat (indexOf ys x))" by simp
      with nonneg False Cons show ?thesis by (simp add: spliceOut_def Let_def)
    qed
  qed
qed

lemma unlink_fields:
  "factors (unlink m l) = factors m"
  "links (unlink m l) = removeAll l (links m)"
  "outputs (unlink m l) = (outputs m)(from_factor l := remove1 l (outputs m (from_factor l)))"
  "inputs (unlink m l) = (inputs m)(to_factor l := remove1 l (inputs m (to_factor l)))"
  by (simp_all add: unlink_def Let_def spliceOut_remove1)

lemma wellformed_link:
  assumes "wellformed m" and "l \<in> set (links m)"
  shows "from_factor l \<in> set (factors m)" "to_factor l \<in> set (factors m)"
    "l \<in> set (outputs m (from_factor l))" "l \<in> set (inputs m (to_factor l))"
  using assms unfolding wellformed_def by blast+

lemma wellformed_factor:
  assumes "wellformed m" and "f \<in> set (factors m)"
  shows "distinct (inputs m f)" "distinct (outputs m f)"
    "\<forall>x \<in> set (inputs m f). x \<in> set (links m) \<and> to_factor x = f"
    "\<forall>x \<in> set (outputs m f). x \<in> set (links m) \<and> from_factor x = f"
  using assms unfolding wellformed_def by blast+

lemma wellformed_unlink:
  assumes "wellformed m"
  shows "wellformed (unlink m l)"
  unfolding wellformed_def unlink_fields
proof (intro conjI ballI)
  show "distinct (factors m)" using assms unfolding wellformed_def by blast
  have "distinct (links m)" using assms unfolding wellformed_def by blast
  then show "distinct (removeAll l (links m))" by (rule distinct_removeAll)
next
  fix l' assume l': "l' \<in> set (removeAll l (links m))"
  then have in_ls: "l' \<in> set (links m)" and ne: "l' \<noteq> l" by simp_all
  note w = wellformed_link [OF assms in_ls]
  show "from_factor l' \<in> set (factors m)" "to_factor l' \<in> set (factors m)"
    by (rule w)+
  show "l' \<in> set (((outputs m)(from_factor l := remove1 l (outputs m (from_factor l)))) (from_factor l'))"
    using w(3) ne by (cases "from_factor l' = from_factor l") simp_all
  show "l' \<in> set (((inputs m)(to_factor l := remove1 l (inputs m (to_factor l)))) (to_factor l'))"
    using w(4) ne by (cases "to_factor l' = to_factor l") simp_all
next
  fix f assume f: "f \<in> set (factors m)"
  note w = wellformed_factor [OF assms f]
  show "distinct (((inputs m)(to_factor l := remove1 l (inputs m (to_factor l)))) f)"
    using w(1) by (cases "f = to_factor l") simp_all
  show "distinct (((outputs m)(from_factor l := remove1 l (outputs m (from_factor l)))) f)"
    using w(2) by (cases "f = from_factor l") simp_all
next
  fix f l' assume f: "f \<in> set (factors m)"
    and l': "l' \<in> set (((inputs m)(to_factor l := remove1 l (inputs m (to_factor l)))) f)"
  note w = wellformed_factor [OF assms f]
  have "l' \<in> set (inputs m f) \<and> l' \<noteq> l"
  proof (cases "f = to_factor l")
    case True
    with l' w(1) show ?thesis by auto
  next
    case False
    with l' w(3) show ?thesis by auto
  qed
  with w(3) show "l' \<in> set (removeAll l (links m))" "to_factor l' = f" by simp_all
next
  fix f l' assume f: "f \<in> set (factors m)"
    and l': "l' \<in> set (((outputs m)(from_factor l := remove1 l (outputs m (from_factor l)))) f)"
  note w = wellformed_factor [OF assms f]
  have "l' \<in> set (outputs m f) \<and> l' \<noteq> l"
  proof (cases "f = from_factor l")
    case True
    with l' w(2) show ?thesis by auto
  next
    case False
    with l' w(4) show ?thesis by auto
  qed
  with w(4) show "l' \<in> set (removeAll l (links m))" "from_factor l' = f" by simp_all
qed

section \<open>The store operations keep the store consistent\<close>

lemma wellformed_emptyModel: "wellformed emptyModel"
  by (simp add: wellformed_def emptyModel_def)

lemma wellformed_addFactor:
  assumes "wellformed m"
  shows "wellformed (addFactor m f)"
proof (cases "f \<in> set (factors m)")
  case True
  with assms show ?thesis by (simp add: addFactor_def)
next
  case False
  have ne: "from_factor l \<noteq> f" "to_factor l \<noteq> f" if "l \<in> set (links m)" for l
    using wellformed_link(1,2) [OF assms that] False by auto
  have fields: "factors (addFactor m f) = factors m @ [f]" "links (addFactor m f) = links m"
    "inputs (addFactor m f) = (inputs m)(f := [])" "outputs (addFactor m f) = (outputs m)(f := [])"
    using False by (simp_all add: addFactor_def)
  show ?thesis
    unfolding wellformed_def fields
  proof (intro conjI ballI)
    show "distinct (factors m @ [f])" using assms False unfolding wellformed_def by simp
    show "distinct (links m)" using assms unfolding wellformed_def by blast
  next
    fix l assume l: "l \<in> set (links m)"
    note w = wellformed_link [OF assms l]
    show "from_factor l \<in> set (factors m @ [f])" "to_factor l \<in> set (factors m @ [f])"
      using w by simp_all
    show "l \<in> set (((outputs m)(f := [])) (from_factor l))" using w(3) ne(1) [OF l] by simp
    show "l \<in> set (((inputs m)(f := [])) (to_factor l))" using w(4) ne(2) [OF l] by simp
  next
    fix g assume g: "g \<in> set (factors m @ [f])"
    show "distinct (((inputs m)(f := [])) g)" "distinct (((outputs m)(f := [])) g)"
      using g wellformed_factor(1,2) [OF assms, of g] by (cases "g = f"; simp)+
  next
    fix g l assume g: "g \<in> set (factors m @ [f])" and l: "l \<in> set (((inputs m)(f := [])) g)"
    then have "g \<in> set (factors m)" "l \<in> set (inputs m g)" by (cases "g = f"; simp)+
    with wellformed_factor(3) [OF assms, of g]
    show "l \<in> set (links m)" "to_factor l = g" by simp_all
  next
    fix g l assume g: "g \<in> set (factors m @ [f])" and l: "l \<in> set (((outputs m)(f := [])) g)"
    then have "g \<in> set (factors m)" "l \<in> set (outputs m g)" by (cases "g = f"; simp)+
    with wellformed_factor(4) [OF assms, of g]
    show "l \<in> set (links m)" "from_factor l = g" by simp_all
  qed
qed

lemma wellformed_addLink:
  assumes "wellformed m" and a: "a \<in> set (factors m)" and b: "b \<in> set (factors m)"
  shows "wellformed (addLink m a b)"
proof (cases "(a, b) \<in> set (links m)")
  case True
  with assms show ?thesis by (simp add: addLink_def)
next
  case False
  have fields: "factors (addLink m a b) = factors m" "links (addLink m a b) = links m @ [(a, b)]"
    "inputs (addLink m a b) = (inputs m)(b := inputs m b @ [(a, b)])"
    "outputs (addLink m a b) = (outputs m)(a := outputs m a @ [(a, b)])"
    using False by (simp_all add: addLink_def Let_def)
  have ft: "from_factor (a, b) = a" "to_factor (a, b) = b"
    by (simp_all add: from_factor_def to_factor_def)
  show ?thesis
    unfolding wellformed_def fields
  proof (intro conjI ballI)
    show "distinct (factors m)" using assms(1) unfolding wellformed_def by blast
    have "distinct (links m)" using assms(1) unfolding wellformed_def by blast
    with False show "distinct (links m @ [(a, b)])" by simp
  next
    fix l assume l: "l \<in> set (links m @ [(a, b)])"
    show "from_factor l \<in> set (factors m)"
      using l a wellformed_link(1) [OF assms(1), of l] ft by (cases "l = (a, b)") auto
    show "to_factor l \<in> set (factors m)"
      using l b wellformed_link(2) [OF assms(1), of l] ft by (cases "l = (a, b)") auto
    show "l \<in> set (((outputs m)(a := outputs m a @ [(a, b)])) (from_factor l))"
      using l wellformed_link(3) [OF assms(1), of l] ft by (cases "l = (a, b)") auto
    show "l \<in> set (((inputs m)(b := inputs m b @ [(a, b)])) (to_factor l))"
      using l wellformed_link(4) [OF assms(1), of l] ft by (cases "l = (a, b)") auto
  next
    fix f assume f: "f \<in> set (factors m)"
    note w = wellformed_factor [OF assms(1) f]
    show "distinct (((inputs m)(b := inputs m b @ [(a, b)])) f)"
      using w(1,3) False by (cases "f = b") auto
    show "distinct (((outputs m)(a := outputs m a @ [(a, b)])) f)"
      using w(2,4) False by (cases "f = a") auto
  next
    fix f l assume f: "f \<in> set (factors m)"
      and l: "l \<in> set (((inputs m)(b := inputs m b @ [(a, b)])) f)"
    note w = wellformed_factor [OF assms(1) f]
    show "l \<in> set (links m @ [(a, b)])" "to_factor l = f"
      using l w(3) ft by (cases "f = b"; auto)+
  next
    fix f l assume f: "f \<in> set (factors m)"
      and l: "l \<in> set (((outputs m)(a := outputs m a @ [(a, b)])) f)"
    note w = wellformed_factor [OF assms(1) f]
    show "l \<in> set (links m @ [(a, b)])" "from_factor l = f"
      using l w(4) ft by (cases "f = a"; auto)+
  qed
qed

section \<open>The claims\<close>

lemmas model_simps =
  addFactor_def addLink_def emptyModel_def from_factor_def to_factor_def Let_def

lemmas run_simps =
  sproutPathsFrom.simps setPredecessorsFrom.simps addPredecessorsFrom.simps
  setPredecessors_def makePredecessorLists_def buildPathMatrix_def cleanUpFeedbackLinks_def
  pushPath_def registerCycles_def registerPath_def closesOnOrigin_def intersection_def
  resetMarks_def setFeedback_def marks.truncate_def deleteLink_def unlink_def spliceOut_def

text \<open>
  C1. After a recompute the \<open>is_feedback\<close> flag of a link would be true exactly when some
  recorded path closes on its origin through that link. The code breaks both directions.
  In \<open>loopForkModel\<close> the link \<open>0 \<rightarrow> 0\<close> is flagged, but the only path recorded is
  \<open>[0, 1]\<close>: the entry of factor \<open>0\<close> was overwritten when its second outgoing link was
  processed. In \<open>fiveModel\<close> the path \<open>[4, 3, 0, 2, 1, 4]\<close> is recorded and closes through the
  link \<open>1 \<rightarrow> 4\<close>, but that link is not flagged, because the predecessor list of factor
  \<open>1\<close> is incomplete.
\<close>

theorem feedback_flags_disagree_with_recorded_cycles:
  "map_option (\<lambda>m. (is_feedback m (0, 0), path_matrix m)) (cleanUpFeedbackLinks loopForkModel)
     = Some (True, [(0, [[0, 1]])]) \<and>
   map_option (\<lambda>m. (is_feedback m (1, 4), map_of (path_matrix m) 4))
       (cleanUpFeedbackLinks fiveModel)
     = Some (False, Some [[4, 3], [4, 3, 0], [4, 3, 0, 2], [4, 3, 0, 2, 1], [4, 3, 0, 2, 1, 4]])"
proof
  show "map_option (\<lambda>m. (is_feedback m (0, 0), path_matrix m))
      (cleanUpFeedbackLinks loopForkModel) = Some (True, [(0, [[0, 1]])])"
    by (simp add: loopForkModel_def model_simps run_simps)
  show "map_option (\<lambda>m. (is_feedback m (1, 4), map_of (path_matrix m) 4))
      (cleanUpFeedbackLinks fiveModel)
    = Some (False, Some [[4, 3], [4, 3, 0], [4, 3, 0, 2], [4, 3, 0, 2, 1], [4, 3, 0, 2, 1, 4]])"
    by (simp add: fiveModel_def model_simps run_simps)
qed

text \<open>
  C2. The list recorded for a factor would hold the paths grown from every one of its
  outgoing links. In \<open>forkModel\<close> factor \<open>0\<close> has the links \<open>0 \<rightarrow> 1\<close> and \<open>0 \<rightarrow> 2\<close>, and the
  list recorded for it is \<open>[[0, 2]]\<close>: \<open>buildPathMatrix\<close> assigns a fresh list to the entry
  for every outgoing link, so only the paths through the last link remain.
\<close>

theorem paths_of_earlier_links_are_overwritten:
  "outputs forkModel 0 = [(0, 1), (0, 2)] \<and>
   map_option path_matrix (buildPathMatrix forkModel) = Some [(0, [[0, 2]])]"
  by (simp add: forkModel_def model_simps run_simps)

text \<open>
  C3. The predecessor list of a factor would hold exactly the factors from which it can be
  reached, whatever the order in which the links were added. In \<open>chordModel\<close> factor \<open>1\<close>
  lies on the cycle \<open>1 \<rightarrow> 3 \<rightarrow> 0 \<rightarrow> 2 \<rightarrow> 1\<close>, so it can be reached from itself, but its
  predecessor list after a recompute is \<open>[2, 0, 3]\<close>. With the same links added in
  another order, in \<open>chordModelSwapped\<close>, the list is \<open>[2, 0, 3, 1]\<close>.
\<close>

theorem predecessor_list_misses_an_ancestor:
  "(1, 1) \<in> (set (links chordModel))\<^sup>+ \<and>
   map_option (\<lambda>m. predecessors m 1) (cleanUpFeedbackLinks chordModel) = Some [2, 0, 3] \<and>
   set (links chordModelSwapped) = set (links chordModel) \<and>
   map_option (\<lambda>m. predecessors m 1) (cleanUpFeedbackLinks chordModelSwapped)
     = Some [2, 0, 3, 1]"
proof (intro conjI)
  have l: "links chordModel = [(0, 2), (2, 1), (2, 3), (1, 3), (3, 0)]"
    by (simp add: chordModel_def model_simps)
  have l': "links chordModelSwapped = [(0, 2), (2, 1), (1, 3), (2, 3), (3, 0)]"
    by (simp add: chordModelSwapped_def model_simps)
  have "(1, 3) \<in> (set (links chordModel))\<^sup>+" by (simp add: l r_into_trancl)
  then have "(1, 0) \<in> (set (links chordModel))\<^sup>+"
    by (rule trancl_into_trancl) (simp add: l)
  then have "(1, 2) \<in> (set (links chordModel))\<^sup>+"
    by (rule trancl_into_trancl) (simp add: l)
  then show "(1, 1) \<in> (set (links chordModel))\<^sup>+"
    by (rule trancl_into_trancl) (simp add: l)
  show "map_option (\<lambda>m. predecessors m 1) (cleanUpFeedbackLinks chordModel) = Some [2, 0, 3]"
    by (simp add: chordModel_def model_simps run_simps)
  show "set (links chordModelSwapped) = set (links chordModel)"
    unfolding l l' by auto
  show "map_option (\<lambda>m. predecessors m 1) (cleanUpFeedbackLinks chordModelSwapped)
      = Some [2, 0, 3, 1]"
    by (simp add: chordModelSwapped_def model_simps run_simps)
qed

text \<open>
  C4. In a graph without a directed cycle, a recompute leaves the cycle list empty and
  the \<open>is_feedback\<close> flag of every link of the store false.
\<close>

theorem acyclic_graph_has_no_cycles_and_no_feedback:
  assumes "wellformed m" and "acyclic (set (links m))"
  shows "\<exists>m'. cleanUpFeedbackLinks m = Some m' \<and> cycle_list m' = [] \<and>
           (\<forall>l \<in> set (links m'). \<not> is_feedback m' l)"
proof -
  let ?F = "set (factors m)" and ?ls = "links m"
  let ?s0 = "resetMarks (factors m) (links m) (marks.truncate m)"
  from cleanUpFeedbackLinks_total [OF assms(1)] obtain pm s where
    r: "cleanUpFeedbackLinks m = Some (recomputed m pm s)" and
    ok: "recorded_ok ?F ?ls pm" and ev: "evolves ?F ?ls ?s0 s" by blast
  have no_loop: "(x, x) \<notin> (set ?ls)\<^sup>+" for x
    using assms(2) by (simp add: acyclic_def)
  have "registerCycles pm = []"
  proof (rule ccontr)
    assume "registerCycles pm \<noteq> []"
    then obtain c where "c \<in> set (registerCycles pm)" by (cases "registerCycles pm") auto
    from set_registerCycles [OF this] obtain k pl where
      c: "(k, pl) \<in> set pm" "c \<in> set pl" "closesOnOrigin c" by blast
    with ok have p: "simplePath c" "isWalk ?ls c" by (auto simp: recorded_ok_def)
    then have "2 \<le> length c" by (simp add: simplePath_def)
    moreover then have "c \<noteq> []" by auto
    ultimately have "(hd c, hd c) \<in> (set ?ls)\<^sup>+"
      using isWalk_trancl [OF p(2)] c(3) by (simp add: closesOnOrigin_iff)
    with no_loop show False by blast
  qed
  moreover have "\<not> is_feedback (recomputed m pm s) l" if l: "l \<in> set ?ls" for l
  proof
    assume "is_feedback (recomputed m pm s) l"
    with l have mem: "to_factor l \<in> set (predecessors s (from_factor l))"
      by (simp add: recomputed_def)
    have "sound ?F ?ls s"
      using ev sound_resetMarks [of "factors m" ?ls] by (simp add: evolves_def)
    moreover have "from_factor l \<in> ?F" using assms(1) l by (simp add: wellformed_def)
    ultimately have "(to_factor l, from_factor l) \<in> (set ?ls)\<^sup>+"
      using mem by (auto simp: sound_def)
    moreover have "(from_factor l, to_factor l) \<in> set ?ls" using l link_pair [of l] by simp
    ultimately have "(from_factor l, from_factor l) \<in> (set ?ls)\<^sup>+"
      by (rule trancl_into_trancl2 [rotated])
    with no_loop show False by blast
  qed
  ultimately show ?thesis using r by (simp add: recomputed_def)
qed

theorem acyclic_graph_has_no_cycles_and_no_feedback_witness:
  "wellformed forkModel \<and> acyclic (set (links forkModel)) \<and>
   (\<exists>m'. cleanUpFeedbackLinks forkModel = Some m' \<and> cycle_list m' = [] \<and>
      (\<forall>l \<in> set (links m'). \<not> is_feedback m' l))"
proof -
  have wf: "wellformed forkModel"
    by (simp add: wellformed_def forkModel_def model_simps)
  have "links forkModel = [(0, 1), (0, 2)]" by (simp add: forkModel_def model_simps)
  then have ac: "acyclic (set (links forkModel))"
    by (intro acyclicI_order [where f = "\<lambda>x::nat. if x = 0 then 1 else (0::nat)"]) auto
  from acyclic_graph_has_no_cycles_and_no_feedback [OF wf ac] wf ac show ?thesis by blast
qed

text \<open>
  C5. After \<open>deleteFactor\<close> no link of the store would touch the deleted factor. The code
  compares the properties \<open>from_node\<close> and \<open>to_node\<close>, which a Link does not have, so it
  deletes no link; it then calls a method that class \<open>Cluster\<close> does not have. In
  \<open>oneLinkModel\<close> the call \<open>deleteFactor(0)\<close> raises a \<open>TypeError\<close> and leaves the model as it
  was, with the link \<open>0 \<rightarrow> 1\<close> and the factor \<open>0\<close> in the store.
\<close>

theorem deleteFactor_deletes_no_link:
  "deleteFactor oneLinkModel 0 = Some (Inl (TypeError, oneLinkModel)) \<and>
   links oneLinkModel = [(0, 1)] \<and> factors oneLinkModel = [0, 1]"
  by (simp add: deleteFactor_def from_node_def to_node_def cluster_deleteFactor_def
      oneLinkModel_def model_simps)

text \<open>
  C6. \<open>deleteLink\<close> would only remove the link, and leave the predecessor lists, the
  cycle list and the \<open>is_feedback\<close> flags as they were until the caller recomputes. It
  does not: \<open>deleteLink\<close> ends with a call of \<open>cleanUpFeedbackLinks\<close>. In \<open>mutualModel\<close>,
  recomputed, deleting the link \<open>1 \<rightarrow> 0\<close> empties the cycle list, clears the flag of the
  remaining link \<open>0 \<rightarrow> 1\<close> and shortens the predecessor list of factor \<open>1\<close>.
\<close>

theorem deleteLink_leaves_derived_data_counterexample:
  "map_option (\<lambda>m. (cycle_list m = [], is_feedback m (0, 1), predecessors m 1))
     (cleanUpFeedbackLinks mutualModel) = Some (False, True, [0, 1]) \<and>
   map_option (\<lambda>m. (cycle_list m = [], is_feedback m (0, 1), predecessors m 1))
     (Option.bind (cleanUpFeedbackLinks mutualModel) (\<lambda>m. deleteLink m (1, 0)))
     = Some (True, False, [0])"
  by (simp add: mutualModel_def model_simps run_simps)

text \<open>
  C6, amended. \<open>deleteLink\<close> removes the link from the outgoing list of its FROM
  factor, from the incoming list of its TO factor and from the links of the store, and
  then recomputes: it returns, the store is consistent, and the derived data are up to
  date, so that a further recompute changes nothing.
\<close>

theorem deleteLink_unlinks_and_recomputes:
  assumes "wellformed m"
  shows "\<exists>m'. deleteLink m l = Some m' \<and>
           factors m' = factors m \<and>
           links m' = removeAll l (links m) \<and>
           outputs m' = (outputs m)(from_factor l := remove1 l (outputs m (from_factor l))) \<and>
           inputs m' = (inputs m)(to_factor l := remove1 l (inputs m (to_factor l))) \<and>
           wellformed m' \<and> cleanUpFeedbackLinks m' = Some m'"
proof -
  have wf: "wellformed (unlink m l)" by (rule wellformed_unlink [OF assms])
  from recompute_fixpoint [OF wf] obtain m' where
    m': "cleanUpFeedbackLinks (unlink m l) = Some m'" "cleanUpFeedbackLinks m' = Some m'"
      "factors m' = factors (unlink m l)" "links m' = links (unlink m l)"
      "inputs m' = inputs (unlink m l)" "outputs m' = outputs (unlink m l)" by blast
  have "wellformed m'" using wf unfolding wellformed_def m'(3-6) .
  with m' show ?thesis by (simp add: deleteLink_def unlink_fields)
qed

theorem deleteLink_unlinks_and_recomputes_witness:
  "wellformed ringModel \<and>
   (\<exists>m'. deleteLink ringModel (2, 0) = Some m' \<and>
      factors m' = factors ringModel \<and>
      links m' = removeAll (2, 0) (links ringModel) \<and>
      outputs m' = (outputs ringModel)
        (from_factor (2, 0) := remove1 (2, 0) (outputs ringModel (from_factor (2, 0)))) \<and>
      inputs m' = (inputs ringModel)
        (to_factor (2, 0) := remove1 (2, 0) (inputs ringModel (to_factor (2, 0)))) \<and>
      wellformed m' \<and> cleanUpFeedbackLinks m' = Some m')"
proof -
  have wf: "wellformed ringModel"
    by (simp add: wellformed_def ringModel_def model_simps)
  from deleteLink_unlinks_and_recomputes [OF wf, of "(2, 0)"] wf show ?thesis by blast
qed

text \<open>
  C7. \<open>buildPathMatrix\<close> appends a cycle candidate to the cycle list iff no cycle accepted
  before it has the same length and the same factors. The cycle list is what the registry
  of the spec makes of the recorded paths that are cycle candidates in the spec's sense
  (last node equal to the first, length at least 2): every entry is such a candidate,
  every such candidate is the same cycle as some entry, and no two entries have both
  equal length and equal sets of factors.
\<close>

theorem cycle_registry_follows_set_equality_rule:
  assumes "wellformed m"
  shows "\<exists>m'. buildPathMatrix m = Some m' \<and>
           cycle_list m' = specRegister (cycleCandidates (path_matrix m')) [] \<and>
           (\<forall>c \<in> set (cycle_list m'). c \<in> set (cycleCandidates (path_matrix m'))) \<and>
           (\<forall>p \<in> set (cycleCandidates (path_matrix m')).
              \<exists>c \<in> set (cycle_list m'). sameCycle p c) \<and>
           (\<forall>i j. i < j \<and> j < length (cycle_list m') \<longrightarrow>
              \<not> sameCycle (cycle_list m' ! i) (cycle_list m' ! j))"
proof -
  from buildPathMatrix_ok [OF assms] obtain pm where
    b: "buildPathMatrix m = Some (m\<lparr>path_matrix := pm, cycle_list := registerCycles pm\<rparr>)" and
    ok: "recorded_ok (set (factors m)) (links m) pm" by blast
  have simple: "\<forall>p \<in> set (concat (map snd pm)). simplePath p"
    using ok by (fastforce simp: recorded_ok_def)
  from registerPath_spec [OF simple, of "[]"]
  have "registerCycles pm = specRegister (filter closesOnOrigin (concat (map snd pm))) []"
    by (simp add: registerCycles_def registerCycles_concat)
  then have eq: "registerCycles pm = specRegister (cycleCandidates pm) []"
    by (simp add: filter_closesOnOrigin_simple [OF simple] cycleCandidates_def)
  let ?cl = "specRegister (cycleCandidates pm) []"
  from specRegister_no_duplicates [of "[]" "cycleCandidates pm"]
  have d: "distinct ?cl" and u: "\<forall>c1 \<in> set ?cl. \<forall>c2 \<in> set ?cl. sameCycle c1 c2 \<longrightarrow> c1 = c2"
    by simp_all
  have nodup: "\<not> sameCycle (?cl ! i) (?cl ! j)" if "i < j" "j < length ?cl" for i j
  proof
    assume "sameCycle (?cl ! i) (?cl ! j)"
    with u that have "?cl ! i = ?cl ! j" by simp
    with d that show False by (simp add: nth_eq_iff_index_eq)
  qed
  have sub: "\<forall>c \<in> set ?cl. c \<in> set (cycleCandidates pm)"
    using specRegister_subset [of "cycleCandidates pm" "[]"] by auto
  have cov: "\<forall>p \<in> set (cycleCandidates pm). \<exists>c \<in> set ?cl. sameCycle p c"
    using specRegister_covers by blast
  from b eq nodup sub cov show ?thesis by simp
qed

theorem cycle_registry_follows_set_equality_rule_witness:
  "wellformed ringModel \<and>
   map_option cycle_list (buildPathMatrix ringModel) = Some [[0, 1, 2, 0]] \<and>
   (\<exists>m'. buildPathMatrix ringModel = Some m' \<and>
      cycle_list m' = specRegister (cycleCandidates (path_matrix m')) [] \<and>
      (\<forall>c \<in> set (cycle_list m'). c \<in> set (cycleCandidates (path_matrix m'))) \<and>
      (\<forall>p \<in> set (cycleCandidates (path_matrix m')).
         \<exists>c \<in> set (cycle_list m'). sameCycle p c) \<and>
      (\<forall>i j. i < j \<and> j < length (cycle_list m') \<longrightarrow>
         \<not> sameCycle (cycle_list m' ! i) (cycle_list m' ! j)))"
proof -
  have wf: "wellformed ringModel"
    by (simp add: wellformed_def ringModel_def model_simps)
  have ev: "map_option cycle_list (buildPathMatrix ringModel) = Some [[0, 1, 2, 0]]"
    by (simp add: ringModel_def model_simps run_simps)
  from cycle_registry_follows_set_equality_rule [OF wf] wf ev show ?thesis by blast
qed

text \<open>
  C8. A recompute returns on every finite graph, with or without directed cycles, and no
  recorded path is longer than the number of factors plus one.
\<close>

theorem recompute_terminates:
  assumes "wellformed m"
  shows "\<exists>m'. cleanUpFeedbackLinks m = Some m' \<and>
           (\<forall>k pl p. (k, pl) \<in> set (path_matrix m') \<and> p \<in> set pl \<longrightarrow>
              length p \<le> length (factors m) + 1)"
proof -
  from cleanUpFeedbackLinks_total [OF assms] obtain pm s where
    r: "cleanUpFeedbackLinks m = Some (recomputed m pm s)" and
    ok: "recorded_ok (set (factors m)) (links m) pm" by blast
  have "length p \<le> length (factors m) + 1" if "(k, pl) \<in> set pm" "p \<in> set pl" for k pl p
    using ok that by (intro simplePath_length) (auto simp: recorded_ok_def)
  with r show ?thesis by (auto simp: recomputed_def)
qed

theorem recompute_terminates_witness:
  "wellformed chordModel \<and>
   (\<exists>m'. cleanUpFeedbackLinks chordModel = Some m' \<and>
      (\<forall>k pl p. (k, pl) \<in> set (path_matrix m') \<and> p \<in> set pl \<longrightarrow>
         length p \<le> length (factors chordModel) + 1))"
proof -
  have wf: "wellformed chordModel"
    by (simp add: wellformed_def chordModel_def model_simps)
  from recompute_terminates [OF wf] wf show ?thesis by blast
qed

text \<open>
  C9. A second recompute, with no change of the graph in between, leaves the model as
  the first one left it: the same cycle list and the same \<open>is_feedback\<close> flags.
\<close>

theorem recompute_is_idempotent:
  assumes "wellformed m"
  shows "\<exists>m1. cleanUpFeedbackLinks m = Some m1 \<and>
           (\<exists>m2. cleanUpFeedbackLinks m1 = Some m2 \<and> cycle_list m2 = cycle_list m1 \<and>
              is_feedback m2 = is_feedback m1 \<and> m2 = m1)"
  using recompute_fixpoint [OF assms] by auto

theorem recompute_is_idempotent_witness:
  "wellformed mutualModel \<and>
   (\<exists>m1. cleanUpFeedbackLinks mutualModel = Some m1 \<and>
      (\<exists>m2. cleanUpFeedbackLinks m1 = Some m2 \<and> cycle_list m2 = cycle_list m1 \<and>
         is_feedback m2 = is_feedback m1 \<and> m2 = m1))"
proof -
  have wf: "wellformed mutualModel"
    by (simp add: wellformed_def mutualModel_def model_simps)
  from recompute_is_idempotent [OF wf] wf show ?thesis by blast
qed

text \<open>
  C10. Every path that \<open>buildPathMatrix\<close> records under the key \<open>k\<close> is an edge path of
  the graph: it begins with \<open>k\<close>, has at least two factors, each of its steps is a link
  of the store, and no factor occurs twice in it, except that the last may be the first
  again. Every entry of the cycle list is a closed walk along links of the store.
\<close>

theorem recorded_paths_are_edge_paths:
  assumes "wellformed m"
  shows "\<exists>m'. buildPathMatrix m = Some m' \<and>
           (\<forall>k pl p. (k, pl) \<in> set (path_matrix m') \<and> p \<in> set pl \<longrightarrow>
              hd p = k \<and> 2 \<le> length p \<and> isWalk (links m') p \<and>
              distinct (butlast p) \<and> distinct (tl p)) \<and>
           (\<forall>c \<in> set (cycle_list m'). last c = hd c \<and> 2 \<le> length c \<and> isWalk (links m') c)"
proof -
  from buildPathMatrix_ok [OF assms] obtain pm where
    b: "buildPathMatrix m = Some (m\<lparr>path_matrix := pm, cycle_list := registerCycles pm\<rparr>)" and
    ok: "recorded_ok (set (factors m)) (links m) pm" by blast
  have paths: "hd p = k \<and> 2 \<le> length p \<and> isWalk (links m) p \<and> distinct (butlast p) \<and> distinct (tl p)"
    if "(k, pl) \<in> set pm" "p \<in> set pl" for k pl p
    using ok that unfolding recorded_ok_def simplePath_def by blast
  have cycles: "last c = hd c \<and> 2 \<le> length c \<and> isWalk (links m) c"
    if "c \<in> set (registerCycles pm)" for c
  proof -
    from set_registerCycles [OF that] obtain k pl where
      c: "(k, pl) \<in> set pm" "c \<in> set pl" "closesOnOrigin c" by blast
    from paths [OF c(1,2)] have "2 \<le> length c" "isWalk (links m) c" by simp_all
    moreover then have "c \<noteq> []" by auto
    ultimately show ?thesis using c(3) by (simp add: closesOnOrigin_iff)
  qed
  show ?thesis
    using b paths cycles by (intro exI [of _ "m\<lparr>path_matrix := pm, cycle_list := registerCycles pm\<rparr>"]) auto
qed

theorem recorded_paths_are_edge_paths_witness:
  "wellformed ringModel \<and>
   (\<exists>m'. buildPathMatrix ringModel = Some m' \<and>
      (\<forall>k pl p. (k, pl) \<in> set (path_matrix m') \<and> p \<in> set pl \<longrightarrow>
         hd p = k \<and> 2 \<le> length p \<and> isWalk (links m') p \<and>
         distinct (butlast p) \<and> distinct (tl p)) \<and>
      (\<forall>c \<in> set (cycle_list m'). last c = hd c \<and> 2 \<le> length c \<and> isWalk (links m') c))"
proof -
  have wf: "wellformed ringModel"
    by (simp add: wellformed_def ringModel_def model_simps)
  from recorded_paths_are_edge_paths [OF wf] wf show ?thesis by blast
qed

end
